theory Spec2Isabelle
  imports Main
begin

section \<open>Runes, strings and the Unicode tables\<close>

text \<open>
  A Go \<open>string\<close> is handled by the package through \<open>[]rune(s)\<close> and \<open>string(rs)\<close>:
  the embedding works on the sequence of code points throughout (a string of valid UTF-8).
  A rune is its code point, an integer as in Go (\<open>rune = int32\<close>; no operation of the
  package leaves the range of code points).
\<close>

type_synonym rune = int

text \<open>
  The tables of Go's \<open>unicode\<close> package are not part of the repository: the functions
  of the package take them as the parameter \<open>U\<close>. General theorems hold for every
  \<open>U\<close>; concrete runs use \<open>ascii\<close> below.
\<close>

record unicode =
  IsLetter :: "rune \<Rightarrow> bool"
  IsUpper :: "rune \<Rightarrow> bool"
  IsLower :: "rune \<Rightarrow> bool"
  IsSpace :: "rune \<Rightarrow> bool"
  ToLower :: "rune \<Rightarrow> rune"
  ToUpper :: "rune \<Rightarrow> rune"

definition asciiUpper :: "rune \<Rightarrow> bool" where
  "asciiUpper r = (0x41 \<le> r \<and> r \<le> 0x5A)"

definition asciiLower :: "rune \<Rightarrow> bool" where
  "asciiLower r = (0x61 \<le> r \<and> r \<le> 0x7A)"

definition asciiSpace :: "rune \<Rightarrow> bool" where
  \<comment> \<open>\<open>unicode.IsSpace\<close> below U+0080: tab, LF, VT, FF, CR and space\<close>
  "asciiSpace r = (r = 0x09 \<or> r = 0x0A \<or> r = 0x0B \<or> r = 0x0C \<or> r = 0x0D \<or> r = 0x20)"

definition ascii :: unicode where
  \<comment> \<open>the values of Go's tables on U+0000..U+007F; a code point above that range is
      left unclassified (no letter, no space, mapped to itself), so \<open>ascii\<close> is Go's
      \<open>unicode\<close> on ASCII text only\<close>
  "ascii = \<lparr> IsLetter = (\<lambda>r. asciiUpper r \<or> asciiLower r),
             IsUpper = asciiUpper,
             IsLower = asciiLower,
             IsSpace = asciiSpace,
             ToLower = (\<lambda>r. if asciiUpper r then r + 0x20 else r),
             ToUpper = (\<lambda>r. if asciiLower r then r - 0x20 else r) \<rparr>"

definition runes :: "string \<Rightarrow> rune list" where
  \<comment> \<open>\<open>[]rune(s)\<close> for a literal of the theory\<close>
  "runes s = map of_char s"

definition slice :: "'a list \<Rightarrow> nat \<Rightarrow> nat \<Rightarrow> 'a list" where
  \<comment> \<open>Go's \<open>xs[i:j]\<close>, which the package only evaluates with \<open>i \<le> j \<le> len(xs)\<close>\<close>
  "slice xs i j = take (j - i) (drop i xs)"

definition scan :: "('a \<Rightarrow> bool) \<Rightarrow> 'a list \<Rightarrow> nat \<Rightarrow> nat" where
  \<comment> \<open>the loop \<open>for k < len(xs) && P(xs[k]) { k++ }\<close>: the value of \<open>k\<close> after it\<close>
  "scan P xs k = k + length (takeWhile P (drop k xs))"

definition lookupBool :: "('k \<rightharpoonup> bool) \<Rightarrow> 'k \<Rightarrow> bool" where
  \<comment> \<open>\<open>m[k]\<close> on a \<open>map[string]bool\<close>: a missing key reads as \<open>false\<close>\<close>
  "lookupBool m k = (case m k of None \<Rightarrow> False | Some b \<Rightarrow> b)"


section \<open>The decapitalization engine (\<open>decapitalizeMidSentence\<close>)\<close>

definition protectedHeads :: "rune list \<rightharpoonup> bool" where
  "protectedHeads = map_of
     [(runes ''Jalan'', True), (runes ''Gunung'', True), (runes ''Sungai'', True),
      (runes ''Danau'', True), (runes ''Kota'', True), (runes ''Provinsi'', True),
      (runes ''Universitas'', True), (runes ''Institut'', True), (runes ''Sekolah'', True),
      (runes ''Rumah'', True), (runes ''Bank'', True), (runes ''PT'', True),
      (runes ''CV'', True), (runes ''RS'', True), (runes ''Hai'', True)]"

definition defaultExceptions :: "rune list \<rightharpoonup> bool" where
  "defaultExceptions = map_of
     [(runes ''Indonesia'', True), (runes ''Jakarta'', True), (runes ''Sahabat'', True),
      (runes ''Sampoerna'', True), (runes ''Call'', True), (runes ''Center'', True),
      (runes ''ATM'', True), (runes ''KTP'', True), (runes ''BI'', True),
      (runes ''BNI'', True), (runes ''BCA'', True)]"

record wordPos =
  wstart :: nat
  wend :: nat

definition isSentenceEnd :: "rune \<Rightarrow> bool" where
  \<comment> \<open>\<open>.\<close>, \<open>!\<close> or \<open>?\<close>\<close>
  "isSentenceEnd r = (r = 0x2E \<or> r = 0x21 \<or> r = 0x3F)"

fun isAllCapsLoop :: "unicode \<Rightarrow> bool \<Rightarrow> rune list \<Rightarrow> bool" where
  "isAllCapsLoop U has [] = has"
| "isAllCapsLoop U has (r # rs) =
     (if IsLetter U r
      then (if \<not> IsUpper U r then False else isAllCapsLoop U True rs)
      else isAllCapsLoop U has rs)"

definition isAllCaps :: "unicode \<Rightarrow> rune list \<Rightarrow> bool" where
  "isAllCaps U rs = isAllCapsLoop U False rs"

fun restLower :: "unicode \<Rightarrow> rune list \<Rightarrow> bool" where
  \<comment> \<open>the loop of \<open>isTitleCase\<close> over the indices from 1\<close>
  "restLower U [] = True"
| "restLower U (r # rs) =
     (if IsLetter U r \<and> \<not> IsLower U r then False else restLower U rs)"

fun isTitleCase :: "unicode \<Rightarrow> rune list \<Rightarrow> bool" where
  "isTitleCase U [] = False"
| "isTitleCase U (r # rs) = (if \<not> IsUpper U r then False else restLower U rs)"

function tokenize :: "unicode \<Rightarrow> rune list \<Rightarrow> nat \<Rightarrow> wordPos list" where
  \<comment> \<open>the loop \<open>for k < len(kal)\<close> that collects \<open>words\<close>, from the index \<open>k\<close> on\<close>
  "tokenize U kal k =
     (if k < length kal
      then (let start = scan (\<lambda>r. \<not> IsLetter U r) kal k;
                k' = scan (IsLetter U) kal start
            in (if k' > start then [\<lparr> wstart = start, wend = k' \<rparr>] else [])
               @ tokenize U kal k')
      else [])"
  by pat_completeness auto
termination
proof (relation "measure (\<lambda>(U, kal, k). length kal - k)")
  show "wf (measure (\<lambda>(U, kal, k). length kal - k))"
    by simp
next
  fix U :: unicode and kal :: "rune list" and k start k' :: nat
  assume lt: "k < length kal"
    and s: "start = scan (\<lambda>r. \<not> IsLetter U r) kal k"
    and k': "k' = scan (IsLetter U) kal start"
  have le: "k' \<le> length kal"
  proof -
    have "length (takeWhile (IsLetter U) (drop start kal)) \<le> length kal - start"
      by (metis length_drop length_takeWhile_le)
    moreover have "start \<le> length kal"
    proof -
      have "length (takeWhile (\<lambda>r. \<not> IsLetter U r) (drop k kal)) \<le> length kal - k"
        by (metis length_drop length_takeWhile_le)
      then show ?thesis using lt by (simp add: s scan_def)
    qed
    ultimately show ?thesis by (simp add: k' scan_def)
  qed
  have gt: "k < k'"
  proof (cases "IsLetter U (kal ! k)")
    case True
    have d: "drop k kal = kal ! k # drop (Suc k) kal"
      using lt by (simp add: Cons_nth_drop_Suc)
    have "start = k" using True by (simp add: s scan_def d)
    then show ?thesis using True by (simp add: k' scan_def d)
  next
    case False
    have d: "drop k kal = kal ! k # drop (Suc k) kal"
      using lt by (simp add: Cons_nth_drop_Suc)
    have "k < start" using False by (simp add: s scan_def d)
    then show ?thesis by (simp add: k' scan_def)
  qed
  show "((U, kal, k'), (U, kal, k)) \<in> measure (\<lambda>(U, kal, k). length kal - k)"
    using le gt lt by simp
qed

declare tokenize.simps [simp del]

definition lowerSpan :: "unicode \<Rightarrow> rune list \<Rightarrow> nat \<Rightarrow> nat \<Rightarrow> rune list" where
  \<comment> \<open>\<open>for t := start; t < end; t++ { kal[t] = unicode.ToLower(kal[t]) }\<close>\<close>
  "lowerSpan U kal s e = fold (\<lambda>t k. k[t := ToLower U (k ! t)]) [s..<e] kal"

definition decapWord ::
  "unicode \<Rightarrow> (rune list \<rightharpoonup> bool) \<Rightarrow> (rune list \<rightharpoonup> bool) \<Rightarrow> wordPos list \<Rightarrow> nat
     \<Rightarrow> rune list \<Rightarrow> rune list" where
  \<comment> \<open>the body of the loop over \<open>wi\<close>, on the sentence buffer \<open>kal\<close> as the earlier
      iterations left it; past \<open>wi = 0\<close> the test \<open>wi-1 >= 0\<close> of the source is true\<close>
  "decapWord U exceptions heads words wi kal =
     (if wi = 0 then kal
      else let wp = words ! wi;
               wordRunes = slice kal (wstart wp) (wend wp)
           in if isAllCaps U wordRunes \<or> lookupBool exceptions wordRunes then kal
              else if lookupBool heads
                        (slice kal (wstart (words ! (wi - 1))) (wend (words ! (wi - 1))))
                   then kal
              else if isTitleCase U wordRunes
                   then lowerSpan U kal (wstart wp) (wend wp)
              else kal)"

definition decapSentence ::
  "unicode \<Rightarrow> (rune list \<rightharpoonup> bool) \<Rightarrow> (rune list \<rightharpoonup> bool) \<Rightarrow> rune list \<Rightarrow> rune list" where
  \<comment> \<open>one sentence: the tokens, then \<open>for wi := 0; wi < len(words); wi++\<close>\<close>
  "decapSentence U exceptions heads kal =
     (let words = tokenize U kal 0
      in fold (decapWord U exceptions heads words) [0..<length words] kal)"

lemma scan_ge: "k \<le> scan P xs k"
  by (simp add: scan_def)

lemma scan_le: "k \<le> length xs \<Longrightarrow> scan P xs k \<le> length xs"
proof -
  assume "k \<le> length xs"
  moreover have "length (takeWhile P (drop k xs)) \<le> length xs - k"
    by (metis length_drop length_takeWhile_le)
  ultimately show ?thesis by (simp add: scan_def)
qed

lemma scan_stop: "scan P xs k < length xs \<Longrightarrow> \<not> P (xs ! scan P xs k)"
proof -
  assume a: "scan P xs k < length xs"
  let ?n = "length (takeWhile P (drop k xs))"
  have "?n < length (drop k xs)" using a by (simp add: scan_def)
  then have "\<not> P (drop k xs ! ?n)" by (rule nth_length_takeWhile)
  moreover have "drop k xs ! ?n = xs ! (k + ?n)"
    using a by (simp add: scan_def)
  ultimately show ?thesis by (simp add: scan_def)
qed

function decapLoop ::
  "unicode \<Rightarrow> (rune list \<rightharpoonup> bool) \<Rightarrow> (rune list \<rightharpoonup> bool) \<Rightarrow> rune list \<Rightarrow> nat \<Rightarrow> rune list" where
  \<comment> \<open>the loop \<open>for i := 0; i < n; { ... i = j }\<close>: what it appends to \<open>out\<close> from the
      index \<open>i\<close> on. \<open>kal\<close> is a slice of \<open>rs\<close>, so the source writes the lowered
      runes into \<open>rs[i:j]\<close> as well; the loop reads \<open>rs\<close> only from \<open>j\<close> on
      afterwards, and the embedding keeps \<open>rs\<close> as it was.\<close>
  "decapLoop U exceptions heads rs i =
     (if i < length rs
      then (let j = scan (\<lambda>r. \<not> isSentenceEnd r) rs i;
                kal = decapSentence U exceptions heads (slice rs i j);
                j1 = (if j < length rs \<and> isSentenceEnd (rs ! j) then j + 1 else j);
                j2 = scan (IsSpace U) rs j1
            in kal @ slice rs j j1 @ slice rs j1 j2 @ decapLoop U exceptions heads rs j2)
      else [])"
  by pat_completeness auto
termination
proof (relation "measure (\<lambda>(U, exceptions, heads, rs, i). length rs - i)")
  show "wf (measure (\<lambda>(U, exceptions, heads, rs, i). length rs - i))"
    by simp
next
  fix U :: unicode and exceptions heads :: "rune list \<rightharpoonup> bool"
    and rs :: "rune list" and i j j1 j2 :: nat and kal :: "rune list"
  assume lt: "i < length rs"
    and j: "j = scan (\<lambda>r. \<not> isSentenceEnd r) rs i"
    and j1: "j1 = (if j < length rs \<and> isSentenceEnd (rs ! j) then j + 1 else j)"
    and j2: "j2 = scan (IsSpace U) rs j1"
  have ij: "i \<le> j" by (simp add: j scan_ge)
  have jn: "j \<le> length rs" using lt by (simp add: j scan_le)
  have stop: "j < length rs \<longrightarrow> isSentenceEnd (rs ! j)"
    using scan_stop [of "\<lambda>r. \<not> isSentenceEnd r" rs i] by (simp add: j)
  have "i < j1"
  proof (cases "j < length rs")
    case True
    then show ?thesis using ij stop by (simp add: j1)
  next
    case False
    then show ?thesis using jn lt by (simp add: j1)
  qed
  moreover have "j1 \<le> j2" by (simp add: j2 scan_ge)
  moreover have "j1 \<le> length rs" using jn by (auto simp: j1)
  then have "j2 \<le> length rs" by (simp add: j2 scan_le)
  ultimately show "((U, exceptions, heads, rs, j2), (U, exceptions, heads, rs, i))
      \<in> measure (\<lambda>(U, exceptions, heads, rs, i). length rs - i)"
    using lt by simp
qed

declare decapLoop.simps [simp del]

definition decapitalizeMidSentence ::
  "rune list \<Rightarrow> (rune list \<rightharpoonup> bool) \<Rightarrow> (rune list \<rightharpoonup> bool) \<Rightarrow> unicode \<Rightarrow> rune list" where
  "decapitalizeMidSentence s exceptions heads U = decapLoop U exceptions heads s 0"

function sentenceSpans :: "unicode \<Rightarrow> rune list \<Rightarrow> nat \<Rightarrow> (nat \<times> nat) list" where
  \<comment> \<open>the sentence spans \<open>[i, j)\<close> of the iterations of the same loop, from \<open>i\<close> on\<close>
  "sentenceSpans U rs i =
     (if i < length rs
      then (let j = scan (\<lambda>r. \<not> isSentenceEnd r) rs i;
                j1 = (if j < length rs \<and> isSentenceEnd (rs ! j) then j + 1 else j);
                j2 = scan (IsSpace U) rs j1
            in (i, j) # sentenceSpans U rs j2)
      else [])"
  by pat_completeness auto
termination
proof (relation "measure (\<lambda>(U, rs, i). length rs - i)")
  show "wf (measure (\<lambda>(U, rs, i). length rs - i))"
    by simp
next
  fix U :: unicode and rs :: "rune list" and i j j1 j2 :: nat
  assume lt: "i < length rs"
    and j: "j = scan (\<lambda>r. \<not> isSentenceEnd r) rs i"
    and j1: "j1 = (if j < length rs \<and> isSentenceEnd (rs ! j) then j + 1 else j)"
    and j2: "j2 = scan (IsSpace U) rs j1"
  have ij: "i \<le> j" by (simp add: j scan_ge)
  have jn: "j \<le> length rs" using lt by (simp add: j scan_le)
  have stop: "j < length rs \<longrightarrow> isSentenceEnd (rs ! j)"
    using scan_stop [of "\<lambda>r. \<not> isSentenceEnd r" rs i] by (simp add: j)
  have "i < j1"
  proof (cases "j < length rs")
    case True
    then show ?thesis using ij stop by (simp add: j1)
  next
    case False
    then show ?thesis using jn lt by (simp add: j1)
  qed
  moreover have "j1 \<le> j2" by (simp add: j2 scan_ge)
  moreover have "j1 \<le> length rs" using jn by (auto simp: j1)
  then have "j2 \<le> length rs" by (simp add: j2 scan_le)
  ultimately show "((U, rs, j2), (U, rs, i)) \<in> measure (\<lambda>(U, rs, i). length rs - i)"
    using lt by simp
qed

declare sentenceSpans.simps [simp del]

subsection \<open>Intermediate values of the loops\<close>

text \<open>
  Names for values the loops pass through, used to state what the engine does: the
  sentence buffer when the loop over \<open>wi\<close> reaches a token, and the end of the sentence
  that starts at \<open>i\<close> with the start of the sentence after it.
\<close>

definition bufferAt ::
  "unicode \<Rightarrow> (rune list \<rightharpoonup> bool) \<Rightarrow> (rune list \<rightharpoonup> bool) \<Rightarrow> rune list \<Rightarrow> nat \<Rightarrow> rune list" where
  "bufferAt U E H kal wi = fold (decapWord U E H (tokenize U kal 0)) [0..<wi] kal"

definition sentenceEndAt :: "rune list \<Rightarrow> nat \<Rightarrow> nat" where
  "sentenceEndAt rs i = scan (\<lambda>r. \<not> isSentenceEnd r) rs i"

definition nextSentence :: "unicode \<Rightarrow> rune list \<Rightarrow> nat \<Rightarrow> nat" where
  "nextSentence U rs i =
     (let j = sentenceEndAt rs i;
          j1 = (if j < length rs \<and> isSentenceEnd (rs ! j) then j + 1 else j)
      in scan (IsSpace U) rs j1)"


section \<open>Helpers of the package and of \<open>strings\<close>\<close>

definition TrimSpace :: "unicode \<Rightarrow> rune list \<Rightarrow> rune list" where
  \<comment> \<open>\<open>strings.TrimSpace\<close>: leading and trailing \<open>unicode.IsSpace\<close> runes removed\<close>
  "TrimSpace U s = rev (dropWhile (IsSpace U) (rev (dropWhile (IsSpace U) s)))"

fun fieldsFrom :: "unicode \<Rightarrow> rune list \<Rightarrow> rune list \<Rightarrow> rune list list" where
  \<comment> \<open>the scan of \<open>strings.Fields\<close>; \<open>cur\<close> is the field being read, reversed\<close>
  "fieldsFrom U cur [] = (if cur = [] then [] else [rev cur])"
| "fieldsFrom U cur (r # rs) =
     (if IsSpace U r
      then (if cur = [] then fieldsFrom U [] rs else rev cur # fieldsFrom U [] rs)
      else fieldsFrom U (r # cur) rs)"

definition Fields :: "unicode \<Rightarrow> rune list \<Rightarrow> rune list list" where
  \<comment> \<open>\<open>strings.Fields\<close>: the maximal runs of runes that are not \<open>unicode.IsSpace\<close>\<close>
  "Fields U s = fieldsFrom U [] s"

fun Join :: "rune list list \<Rightarrow> rune list \<Rightarrow> rune list" where
  \<comment> \<open>\<open>strings.Join\<close>\<close>
  "Join [] sep = []"
| "Join [x] sep = x"
| "Join (x # y # ys) sep = x @ sep @ Join (y # ys) sep"

definition SplitN2 :: "rune list \<Rightarrow> rune \<Rightarrow> rune list list" where
  \<comment> \<open>\<open>strings.SplitN(s, sep, 2)\<close> for a separator of one rune: the text before the
      first separator and the text after it, or \<open>s\<close> alone when it has none\<close>
  "SplitN2 s sep =
     (if sep \<in> set s
      then [takeWhile (\<lambda>r. r \<noteq> sep) s, drop 1 (dropWhile (\<lambda>r. r \<noteq> sep) s)]
      else [s])"

definition titleWord :: "unicode \<Rightarrow> rune list \<Rightarrow> rune list" where
  "titleWord U w =
     (case w of [] \<Rightarrow> w
      | r # rs \<Rightarrow> ToUpper U r # map (ToLower U) rs)"

definition firstLetterIndex :: "unicode \<Rightarrow> rune list \<Rightarrow> nat \<Rightarrow> int" where
  \<comment> \<open>the index of the first letter at or after \<open>start\<close>, or \<open>-1\<close>\<close>
  "firstLetterIndex U r start =
     (let i = scan (\<lambda>x. \<not> IsLetter U x) r start
      in if i < length r then int i else - 1)"

definition capitalizeStep :: "unicode \<Rightarrow> nat \<Rightarrow> rune list \<Rightarrow> rune list" where
  \<comment> \<open>the body of the loop over \<open>idx\<close> in \<open>capitalizeSentences\<close>\<close>
  "capitalizeStep U idx r =
     (if r ! idx = 0x2E \<or> r ! idx = 0x21 \<or> r ! idx = 0x3F
      then (let j = firstLetterIndex U r (idx + 1)
            in if j \<ge> 0 then r[nat j := ToUpper U (r ! nat j)] else r)
      else r)"

definition capitalizeSentences :: "unicode \<Rightarrow> rune list \<Rightarrow> rune list" where
  "capitalizeSentences U s =
     (let i = firstLetterIndex U s 0;
          r = (if i \<ge> 0 then s[nat i := ToUpper U (s ! nat i)] else s)
      in fold (capitalizeStep U) [0..<length s] r)"

definition IsSentenceCapitalized :: "unicode \<Rightarrow> rune list \<Rightarrow> bool" where
  "IsSentenceCapitalized U s0 =
     (let s = TrimSpace U s0
      in if s = [] then True
         else (let i = firstLetterIndex U s 0
               in if i \<ge> 0 then IsUpper U (s ! nat i) else True))"


section \<open>Regular expressions (\<open>regexp\<close>)\<close>

text \<open>
  The patterns of the package use literals, classes, sequence, alternation, \<open>?\<close>,
  \<open>*\<close>, \<open>+\<close>, counted repetition, capture groups, \<open>^\<close>, the ASCII word boundary
  \<open>\b\<close> and the flag \<open>(?i)\<close>. Go's \<open>regexp\<close> returns, among the matches that start
  leftmost, the one a backtracking search finds first; \<open>matches\<close> lists the ways a
  pattern matches at a position in that order, so its head is Go's match there.
\<close>

datatype re =
    Eps
  | Chr rune
  | Cls "rune \<Rightarrow> bool"
  | Cat re re
  | Alt re re
  | Opt re
  | Star re
  | Grp nat re
  | Bol
  | WordB

text \<open>
  A position of the matcher: the number of runes consumed since the start of the match,
  the rune before the position (\<open>None\<close> at the start of the text) and the text from the
  position on. The captures map a group number to the text it matched last.
\<close>

type_synonym mpos = "nat \<times> rune option \<times> rune list"
type_synonym caps = "(nat \<times> rune list) list"

definition isWordRune :: "rune \<Rightarrow> bool" where
  \<comment> \<open>\<open>\w\<close>: \<open>[0-9A-Za-z_]\<close>\<close>
  "isWordRune r = ((0x30 \<le> r \<and> r \<le> 0x39) \<or> asciiUpper r \<or> asciiLower r \<or> r = 0x5F)"

definition atWordBoundary :: "rune option \<Rightarrow> rune list \<Rightarrow> bool" where
  "atWordBoundary p rest =
     ((case p of None \<Rightarrow> False | Some r \<Rightarrow> isWordRune r)
      \<noteq> (case rest of [] \<Rightarrow> False | r # _ \<Rightarrow> isWordRune r))"

fun starIter ::
  "(mpos \<Rightarrow> caps \<Rightarrow> (mpos \<times> caps) list) \<Rightarrow> nat \<Rightarrow> mpos \<Rightarrow> caps \<Rightarrow> (mpos \<times> caps) list" where
  \<comment> \<open>greedy iteration of the matcher \<open>f\<close>: one more round that consumes a rune and on,
      before the choice to stop here. \<open>k\<close> bounds the rounds; \<open>matches\<close> passes the
      length of the remaining text, which no sequence of such rounds exceeds.\<close>
  "starIter f 0 st cs = [(st, cs)]"
| "starIter f (Suc k) st cs =
     concat (map (\<lambda>(st', cs'). if fst st < fst st' then starIter f k st' cs' else [])
                 (f st cs))
     @ [(st, cs)]"

fun matches :: "re \<Rightarrow> mpos \<Rightarrow> caps \<Rightarrow> (mpos \<times> caps) list" where
  "matches Eps st cs = [(st, cs)]"
| "matches (Chr c) (n, p, rest) cs =
     (case rest of [] \<Rightarrow> []
      | x # xs \<Rightarrow> if x = c then [((n + 1, Some x, xs), cs)] else [])"
| "matches (Cls P) (n, p, rest) cs =
     (case rest of [] \<Rightarrow> []
      | x # xs \<Rightarrow> if P x then [((n + 1, Some x, xs), cs)] else [])"
| "matches (Cat a b) st cs =
     concat (map (\<lambda>(st', cs'). matches b st' cs') (matches a st cs))"
| "matches (Alt a b) st cs = matches a st cs @ matches b st cs"
| "matches (Opt a) st cs = matches a st cs @ [(st, cs)]"
| "matches (Star a) (n, p, rest) cs =
     starIter (\<lambda>st' cs'. matches a st' cs') (length rest) (n, p, rest) cs"
| "matches (Grp g a) (n, p, rest) cs =
     map (\<lambda>((n', p', rest'), cs'). ((n', p', rest'), (g, take (n' - n) rest) # cs'))
         (matches a (n, p, rest) cs)"
| "matches Bol (n, p, rest) cs = (if p = None then [((n, p, rest), cs)] else [])"
| "matches WordB (n, p, rest) cs =
     (if atWordBoundary p rest then [((n, p, rest), cs)] else [])"

definition Plus :: "re \<Rightarrow> re" where
  \<comment> \<open>\<open>x+\<close>\<close>
  "Plus r = Cat r (Star r)"

fun Rep :: "nat \<Rightarrow> re \<Rightarrow> re" where
  \<comment> \<open>\<open>x{n}\<close>\<close>
  "Rep 0 r = Eps"
| "Rep (Suc n) r = Cat r (Rep n r)"

definition RepMin :: "nat \<Rightarrow> re \<Rightarrow> re" where
  \<comment> \<open>\<open>x{n,}\<close>\<close>
  "RepMin n r = Cat (Rep n r) (Star r)"

fun Seq :: "re list \<Rightarrow> re" where
  \<comment> \<open>the patterns of a list, one after the other\<close>
  "Seq [] = Eps"
| "Seq (r # rs) = Cat r (Seq rs)"

definition lit :: "string \<Rightarrow> re" where
  \<comment> \<open>a literal text\<close>
  "lit s = Seq (map (\<lambda>c. Chr (of_char c)) s)"

definition foldOrbit :: "rune \<Rightarrow> rune list" where
  \<comment> \<open>the runes \<open>unicode.SimpleFold\<close> links to an ASCII rune: both cases of a letter, and
      U+017F (long s) with \<open>s\<close>, U+212A (Kelvin sign) with \<open>k\<close>\<close>
  "foldOrbit c =
     (if asciiUpper c then [c, c + 0x20] else if asciiLower c then [c - 0x20, c] else [c])
     @ (if c = 0x53 \<or> c = 0x73 then [0x17F] else [])
     @ (if c = 0x4B \<or> c = 0x6B then [0x212A] else [])"

definition litCI :: "string \<Rightarrow> re" where
  \<comment> \<open>a literal text under \<open>(?i)\<close>\<close>
  "litCI s = Seq (map (\<lambda>c. Cls (\<lambda>r. r \<in> set (foldOrbit (of_char c)))) s)"

definition oneOf :: "rune list \<Rightarrow> re" where
  \<comment> \<open>the class \<open>[...]\<close> of the listed runes\<close>
  "oneOf xs = Cls (\<lambda>r. r \<in> set xs)"

definition isReSpace :: "rune \<Rightarrow> bool" where
  \<comment> \<open>\<open>\s\<close>: \<open>[\t\n\f\r ]\<close>\<close>
  "isReSpace r = (r = 0x09 \<or> r = 0x0A \<or> r = 0x0C \<or> r = 0x0D \<or> r = 0x20)"

definition isReDigit :: "rune \<Rightarrow> bool" where
  \<comment> \<open>\<open>\d\<close>: \<open>[0-9]\<close>\<close>
  "isReDigit r = (0x30 \<le> r \<and> r \<le> 0x39)"

datatype tpl = Lit "rune list" | Ref nat

fun expand :: "tpl list \<Rightarrow> caps \<Rightarrow> rune list" where
  \<comment> \<open>the replacement template, \<open>$n\<close> read as the text of the group \<open>n\<close>\<close>
  "expand [] cs = []"
| "expand (Lit t # ts) cs = t @ expand ts cs"
| "expand (Ref g # ts) cs = (case map_of cs g of None \<Rightarrow> [] | Some t \<Rightarrow> t) @ expand ts cs"

fun findFrom ::
  "re \<Rightarrow> nat \<Rightarrow> rune option \<Rightarrow> rune list \<Rightarrow> (nat \<times> nat \<times> caps) option" where
  \<comment> \<open>the leftmost match at or after the position \<open>q\<close> (\<open>p\<close> is the rune before \<open>q\<close>,
      \<open>rest\<close> the text from \<open>q\<close>): its start, its end and its captures\<close>
  "findFrom r q p [] =
     (case matches r (0, p, []) [] of
        [] \<Rightarrow> None
      | ((n, _), cs) # _ \<Rightarrow> Some (q, q + n, cs))"
| "findFrom r q p (x # xs) =
     (case matches r (0, p, x # xs) [] of
        [] \<Rightarrow> findFrom r (q + 1) (Some x) xs
      | ((n, _), cs) # _ \<Rightarrow> Some (q, q + n, cs))"

definition runeBefore :: "rune list \<Rightarrow> nat \<Rightarrow> rune option" where
  "runeBefore s q = (if q = 0 then None else Some (s ! (q - 1)))"

function replaceLoop ::
  "re \<Rightarrow> (rune list \<Rightarrow> caps \<Rightarrow> rune list) \<Rightarrow> rune list \<Rightarrow> nat \<Rightarrow> nat \<Rightarrow> rune list" where
  \<comment> \<open>the loop of \<open>Regexp.replaceAll\<close>: what it appends to the result from the state
      (\<open>searchPos\<close>, \<open>lastMatchEnd\<close>) on, with the final copy of the unmatched tail.
      No replacement is inserted for an empty match right after the match before; the
      search always advances by one rune at least.\<close>
  "replaceLoop r repl s searchPos lastMatchEnd =
     (if searchPos \<le> length s
      then (case findFrom r searchPos (runeBefore s searchPos) (drop searchPos s) of
              None \<Rightarrow> drop lastMatchEnd s
            | Some (a0, a1, cs) \<Rightarrow>
                slice s lastMatchEnd a0
                @ (if a1 > lastMatchEnd \<or> a0 = 0 then repl (slice s a0 a1) cs else [])
                @ replaceLoop r repl s (if searchPos + 1 > a1 then searchPos + 1 else a1) a1)
      else drop lastMatchEnd s)"
  by pat_completeness auto
termination
  by (relation "measure (\<lambda>(r, repl, s, searchPos, lastMatchEnd). length s + 1 - searchPos)")
     auto

declare replaceLoop.simps [simp del]

definition ReplaceAllString :: "re \<Rightarrow> rune list \<Rightarrow> tpl list \<Rightarrow> rune list" where
  "ReplaceAllString r s t = replaceLoop r (\<lambda>m cs. expand t cs) s 0 0"

definition ReplaceAllStringFunc :: "re \<Rightarrow> rune list \<Rightarrow> (rune list \<Rightarrow> rune list) \<Rightarrow> rune list" where
  "ReplaceAllStringFunc r s f = replaceLoop r (\<lambda>m cs. f m) s 0 0"


section \<open>The passes of \<open>SanitizeToPUEBI\<close>\<close>

subsection \<open>The precompiled patterns\<close>

definition reWS :: re where
  \<comment> \<open>\<open>\s\<close>\<close>
  "reWS = Cls isReSpace"

definition reMultiWS :: re where
  \<comment> \<open>\<open>\s+\<close>\<close>
  "reMultiWS = Plus reWS"

definition reSpaceBeforePunct :: re where
  \<comment> \<open>\<open>\s+([,.;:!?])\<close>\<close>
  "reSpaceBeforePunct = Seq [Plus reWS, Grp 1 (oneOf (runes '',.;:!?''))]"

definition reCommaSemiColonEtcSpace :: re where
  \<comment> \<open>\<open>([,;:!?])([^\s\)])\<close>\<close>
  "reCommaSemiColonEtcSpace =
     Seq [Grp 1 (oneOf (runes '',;:!?'')),
          Grp 2 (Cls (\<lambda>r. \<not> isReSpace r \<and> r \<noteq> 0x29))]"

definition reDotSentenceSpace :: re where
  \<comment> \<open>\<open>(^|[^\d])\.([^\d\s\).])\<close>\<close>
  "reDotSentenceSpace =
     Seq [Grp 1 (Alt Bol (Cls (\<lambda>r. \<not> isReDigit r))),
          Chr 0x2E,
          Grp 2 (Cls (\<lambda>r. \<not> isReDigit r \<and> \<not> isReSpace r \<and> r \<noteq> 0x29 \<and> r \<noteq> 0x2E))]"

definition reOpenParenSpaces :: re where
  \<comment> \<open>\<open>\(\s+\<close>\<close>
  "reOpenParenSpaces = Seq [Chr 0x28, Plus reWS]"

definition reCloseParenSpaces :: re where
  \<comment> \<open>\<open>\s+\)\<close>\<close>
  "reCloseParenSpaces = Seq [Plus reWS, Chr 0x29]"

definition reMultiDots :: re where
  \<comment> \<open>\<open>[.]{3,}\<close> or the ellipsis U+2026\<close>
  "reMultiDots = Alt (RepMin 3 (Chr 0x2E)) (Chr 0x2026)"

definition reEllipsisNoLeftSp :: re where
  \<comment> \<open>a rune other than space, tab, LF, CR, \<open>(\<close>, \<open>[\<close> and the two quotes, then
      \<open>\.{3}\<close>\<close>
  "reEllipsisNoLeftSp =
     Seq [Grp 1 (Cls (\<lambda>r. r \<notin> set [0x20, 0x09, 0x0A, 0x0D, 0x28, 0x5B, 0x22, 0x27])),
          Rep 3 (Chr 0x2E)]"

definition reEllipsisNoRightSp :: re where
  \<comment> \<open>\<open>\.{3}\<close>, then a rune other than space, tab, LF, CR, \<open>)\<close>, \<open>]\<close>, the two
      quotes, U+00BB and \<open>.,;:!?\<close>\<close>
  "reEllipsisNoRightSp =
     Seq [Rep 3 (Chr 0x2E),
          Grp 1 (Cls (\<lambda>r. r \<notin> set ([0x20, 0x09, 0x0A, 0x0D, 0x29, 0x5D, 0x22, 0x27, 0xBB]
                                     @ runes ''.,;:!?'')))]"

definition reSpaceBeforeCloseQuote :: re where
  \<comment> \<open>\<open>\s+\<close>, then a single or a double quote in group 1\<close>
  "reSpaceBeforeCloseQuote = Seq [Plus reWS, Grp 1 (oneOf [0x27, 0x22])]"

definition reSpaceAfterOpenQuote :: re where
  \<comment> \<open>a single or a double quote in group 1, then \<open>\s+\<close>\<close>
  "reSpaceAfterOpenQuote = Seq [Grp 1 (oneOf [0x27, 0x22]), Plus reWS]"

definition reDashTighten :: re where
  \<comment> \<open>\<open>\s*\<close>, the em dash U+2014, \<open>\s*\<close>\<close>
  "reDashTighten = Seq [Star reWS, Chr 0x2014, Star reWS]"

definition reRealTimeGeneric :: re where
  \<comment> \<open>\<open>(?i)\bReal[ -]?Time\b\<close>\<close>
  "reRealTimeGeneric =
     Seq [WordB, litCI ''Real'', Opt (oneOf (runes '' -'')), litCI ''Time'', WordB]"

definition reTransferRealTime :: re where
  \<comment> \<open>\<open>(?i)\bTransfer\s+real time\b\<close>\<close>
  "reTransferRealTime = Seq [WordB, litCI ''Transfer'', Plus reWS, litCI ''real time'', WordB]"

definition reRpNumber :: re where
  \<comment> \<open>\<open>(?i)\brp\.?\s+([0-9])\<close>\<close>
  "reRpNumber = Seq [WordB, litCI ''rp'', Opt (Chr 0x2E), Plus reWS, Grp 1 (Cls isReDigit)]"

definition reRpNoSpace :: re where
  \<comment> \<open>\<open>(?i)\brp([0-9])\<close>\<close>
  "reRpNoSpace = Seq [WordB, litCI ''rp'', Grp 1 (Cls isReDigit)]"

subsection \<open>The passes\<close>

definition allLetter :: "unicode \<Rightarrow> rune list \<Rightarrow> bool" where
  \<comment> \<open>the flag \<open>allLetter\<close> of a token: letters, apostrophes and hyphens only\<close>
  "allLetter U t = list_all (\<lambda>r. IsLetter U r \<or> r = 0x27 \<or> r = 0x2D) t"

definition greetingName :: "unicode \<Rightarrow> rune list \<Rightarrow> rune list" where
  \<comment> \<open>the function \<open>fixGreetingNameCase\<close> applies to each match\<close>
  "greetingName U m =
     (let parts = SplitN2 m 0x20
      in if length parts < 2 then m
         else (let head = parts ! 0;
                   rest = parts ! 1;
                   tokens = Fields U rest
               in if length tokens = 0 then m
                  else (let limit = (if length tokens > 4 then 4 else length tokens);
                            tokens' = map (\<lambda>t. if allLetter U t then titleWord U t else t)
                                          (take limit tokens)
                                      @ drop limit tokens
                        in head @ [0x20] @ Join tokens' [0x20])))"

definition fixGreetingNameCase :: "unicode \<Rightarrow> rune list \<Rightarrow> rune list" where
  \<comment> \<open>the pattern is \<open>\bHai\b\s+([^\n\r,.!?;:()]+)\<close>\<close>
  "fixGreetingNameCase U s =
     ReplaceAllStringFunc
       (Seq [WordB, lit ''Hai'', WordB, Plus reWS,
             Grp 1 (Plus (Cls (\<lambda>r. r \<notin> set ([0x0A, 0x0D] @ runes '',.!?;:()''))))])
       s (greetingName U)"

definition normalizeSpaces :: "rune list \<Rightarrow> rune list" where
  "normalizeSpaces s0 =
     (let s = ReplaceAllString reMultiWS s0 [Lit (runes '' '')];
          s = ReplaceAllString reSpaceBeforePunct s [Ref 1]
      in s)"

definition fixPunctuationSpacing :: "rune list \<Rightarrow> rune list" where
  "fixPunctuationSpacing s0 =
     (let s = ReplaceAllString reSpaceBeforePunct s0 [Ref 1];
          s = ReplaceAllString reMultiDots s [Lit (runes ''...'')];
          s = ReplaceAllString reEllipsisNoLeftSp s [Ref 1, Lit (runes '' ...'')];
          s = ReplaceAllString reEllipsisNoRightSp s [Lit (runes ''... ''), Ref 1];
          s = ReplaceAllString reCommaSemiColonEtcSpace s [Ref 1, Lit (runes '' ''), Ref 2];
          s = ReplaceAllString reDotSentenceSpace s [Ref 1, Lit (runes ''. ''), Ref 2];
          s = ReplaceAllString reOpenParenSpaces s [Lit (runes ''('')];
          s = ReplaceAllString reCloseParenSpaces s [Lit (runes '')'')];
          s = ReplaceAllString reSpaceBeforeCloseQuote s [Ref 1];
          s = ReplaceAllString reSpaceAfterOpenQuote s [Ref 1];
          s = ReplaceAllString reDashTighten s [Lit [0x2014]];
          s = ReplaceAllString reMultiWS s [Lit (runes '' '')]
      in s)"

definition splitPrefix :: "string \<Rightarrow> string \<Rightarrow> rune list \<Rightarrow> rune list" where
  \<comment> \<open>\<open>\b\<close> prefix word \<open>\b\<close> replaced by the prefix, a space and the word\<close>
  "splitPrefix pre w s =
     ReplaceAllString (Seq [WordB, lit (pre @ w), WordB]) s [Lit (runes (pre @ '' '' @ w))]"

definition fixCommonPrepositions :: "rune list \<Rightarrow> rune list" where
  "fixCommonPrepositions s0 =
     (let locatives = [''luar'', ''dalam'', ''atas'', ''bawah'', ''depan'', ''belakang'',
                       ''samping'', ''antara''];
          s = fold (\<lambda>w s. splitPrefix ''ke'' w (splitPrefix ''di'' w s)) locatives s0;
          places = [''rumah'', ''kantor'', ''sekolah'', ''pasar'', ''bank'', ''jalan'',
                    ''masjid'', ''gereja'', ''kampus''];
          s = fold (\<lambda>w s. splitPrefix ''ke'' w (splitPrefix ''di'' w s)) places s;
          s = ReplaceAllString
                (Seq [WordB, oneOf (runes ''Kk''), lit ''e pada'', WordB]) s
                [Lit (runes ''kepada'')];
          s = ReplaceAllString
                (Seq [WordB, oneOf (runes ''Dd''), lit ''ari pada'', WordB]) s
                [Lit (runes ''daripada'')];
          phrases = [''tiap'', ''setiap'', ''mana'', ''sini'', ''situ'', ''sana''];
          s = fold (\<lambda>w s. splitPrefix ''di'' w s) phrases s
      in s)"

definition normalizeRealTime :: "rune list \<Rightarrow> rune list" where
  "normalizeRealTime s0 =
     (let s = ReplaceAllString reRealTimeGeneric s0 [Lit (runes ''real time'')];
          s = ReplaceAllString reTransferRealTime s [Lit (runes ''transfer real time'')]
      in s)"

definition fixIDRCurrency :: "rune list \<Rightarrow> rune list" where
  "fixIDRCurrency s0 =
     (let s = ReplaceAllString reRpNumber s0 [Lit (runes ''Rp''), Ref 1];
          s = ReplaceAllString reRpNoSpace s [Lit (runes ''Rp''), Ref 1]
      in s)"

definition SanitizeToPUEBI :: "unicode \<Rightarrow> rune list \<Rightarrow> rune list" where
  "SanitizeToPUEBI U s0 =
     (if TrimSpace U s0 = [] then s0
      else (let s = normalizeSpaces s0;
                s = fixPunctuationSpacing s;
                s = fixCommonPrepositions s;
                s = normalizeRealTime s;
                s = capitalizeSentences U s;
                s = fixGreetingNameCase U s;
                s = decapitalizeMidSentence s defaultExceptions protectedHeads U;
                s = fixIDRCurrency s
            in TrimSpace U s))"


section \<open>Predicates of the claims\<close>


definition specIsSentenceCapitalized :: "unicode \<Rightarrow> rune list \<Rightarrow> bool" where
  \<comment> \<open>the specification's words for \<open>IsSentenceCapitalized\<close>: true on an empty or
      whitespace-only text; on every other text, true iff the first letter of the text
      is uppercase\<close>
  "specIsSentenceCapitalized U s =
     (if list_all (IsSpace U) s then True
      else (case find (IsLetter U) s of None \<Rightarrow> False | Some r \<Rightarrow> IsUpper U r))"


section \<open>Properties of the engine\<close>

subsection \<open>Slices and scans\<close>

lemma scan_all: "k \<le> t \<Longrightarrow> t < scan P xs k \<Longrightarrow> P (xs ! t)"
proof -
  assume a: "k \<le> t" and b: "t < scan P xs k"
  let ?tw = "takeWhile P (drop k xs)"
  have lt: "t - k < length ?tw" using a b by (simp add: scan_def)
  then have "?tw ! (t - k) \<in> set ?tw" by simp
  then have "P (?tw ! (t - k))" by (rule set_takeWhileD [THEN conjunct2])
  moreover have "?tw ! (t - k) = drop k xs ! (t - k)" using lt by (rule takeWhile_nth)
  moreover have "t - k < length (drop k xs)"
    using lt length_takeWhile_le [of P "drop k xs"] by linarith
  then have "drop k xs ! (t - k) = xs ! t" using a by simp
  ultimately show ?thesis by simp
qed

lemma slice_length: "j \<le> length xs \<Longrightarrow> length (slice xs i j) = j - i"
  by (simp add: slice_def)

lemma slice_nth: "i + t < j \<Longrightarrow> j \<le> length xs \<Longrightarrow> slice xs i j ! t = xs ! (i + t)"
  by (simp add: slice_def)

lemma lowerSpan_length: "length (lowerSpan U kal s e) = length kal"
proof -
  have "length (fold (\<lambda>t k. k[t := ToLower U (k ! t)]) ts kal) = length kal" for ts
    by (induction ts arbitrary: kal) simp_all
  then show ?thesis by (simp add: lowerSpan_def)
qed

lemma lowerSpan_nth_aux:
  "t < length kal \<Longrightarrow> e \<le> t \<Longrightarrow> lowerSpan U kal s e ! t = kal ! t"
proof (induction e)
  case 0
  then show ?case by (simp add: lowerSpan_def)
next
  case (Suc e)
  show ?case
  proof (cases "s \<le> e")
    case True
    then have "lowerSpan U kal s (Suc e) =
        (lowerSpan U kal s e)[e := ToLower U (lowerSpan U kal s e ! e)]"
      by (simp add: lowerSpan_def)
    then show ?thesis using Suc by simp
  next
    case False
    then show ?thesis by (simp add: lowerSpan_def)
  qed
qed

lemma lowerSpan_nth:
  "t < length kal \<Longrightarrow>
   lowerSpan U kal s e ! t = (if s \<le> t \<and> t < e then ToLower U (kal ! t) else kal ! t)"
proof (induction e)
  case 0
  then show ?case by (simp add: lowerSpan_def)
next
  case (Suc e)
  show ?case
  proof (cases "s \<le> e")
    case True
    then have "lowerSpan U kal s (Suc e) =
        (lowerSpan U kal s e)[e := ToLower U (lowerSpan U kal s e ! e)]"
      by (simp add: lowerSpan_def)
    moreover have "e < length kal \<Longrightarrow> lowerSpan U kal s e ! e = kal ! e"
      using lowerSpan_nth_aux [where t = e and e = e and kal = kal and U = U and s = s] by simp
    ultimately show ?thesis using Suc True
      by (cases "t = e") (simp_all add: lowerSpan_length nth_list_update)
  next
    case False
    then show ?thesis by (simp add: lowerSpan_def)
  qed
qed

lemma tokenize_props:
  "w \<in> set (tokenize U kal k) \<Longrightarrow>
   k \<le> wstart w \<and> wstart w < wend w \<and> wend w \<le> length kal \<and>
   (\<forall>t. wstart w \<le> t \<and> t < wend w \<longrightarrow> IsLetter U (kal ! t))"
proof (induction U kal k rule: tokenize.induct)
  case (1 U kal k)
  define start where "start = scan (\<lambda>r. \<not> IsLetter U r) kal k"
  define k' where "k' = scan (IsLetter U) kal start"
  show ?case
  proof (cases "k < length kal")
    case False
    with "1.prems" show ?thesis by (subst (asm) tokenize.simps) simp
  next
    case True
    have ks: "k \<le> start" by (simp add: start_def scan_ge)
    have sk: "start \<le> k'" by (simp add: k'_def scan_ge)
    have sl: "start \<le> length kal" using True by (simp add: start_def scan_le)
    have kl: "k' \<le> length kal" using sl by (simp add: k'_def scan_le)
    have eq: "tokenize U kal k =
       (if k' > start then [\<lparr> wstart = start, wend = k' \<rparr>] else []) @ tokenize U kal k'"
      using True by (subst tokenize.simps) (simp add: Let_def start_def k'_def)
    from "1.prems" have
      "w \<in> set ((if k' > start then [\<lparr> wstart = start, wend = k' \<rparr>] else []) @ tokenize U kal k')"
      by (simp only: eq)
    then consider (here) "k' > start" "w = \<lparr> wstart = start, wend = k' \<rparr>"
      | (later) "w \<in> set (tokenize U kal k')"
      by (auto split: if_splits)
    then show ?thesis
    proof cases
      case here
      have "\<forall>t. start \<le> t \<and> t < k' \<longrightarrow> IsLetter U (kal ! t)"
        using scan_all [of start _ "IsLetter U" kal] by (simp add: k'_def)
      then show ?thesis using here ks kl by simp
    next
      case later
      have "k' \<le> wstart w \<and> wstart w < wend w \<and> wend w \<le> length kal \<and>
        (\<forall>t. wstart w \<le> t \<and> t < wend w \<longrightarrow> IsLetter U (kal ! t))"
        using "1.IH" [OF True start_def k'_def later] .
      then show ?thesis using ks sk by simp
    qed
  qed
qed

lemma tokenize_sorted: "sorted_wrt (\<lambda>a b. wend a \<le> wstart b) (tokenize U kal k)"
proof (induction U kal k rule: tokenize.induct)
  case (1 U kal k)
  define start where "start = scan (\<lambda>r. \<not> IsLetter U r) kal k"
  define k' where "k' = scan (IsLetter U) kal start"
  show ?case
  proof (cases "k < length kal")
    case False
    then show ?thesis by (subst tokenize.simps) simp
  next
    case True
    have ih: "sorted_wrt (\<lambda>a b. wend a \<le> wstart b) (tokenize U kal k')"
      using "1.IH" [OF True start_def k'_def] .
    have eq: "tokenize U kal k =
       (if k' > start then [\<lparr> wstart = start, wend = k' \<rparr>] else []) @ tokenize U kal k'"
      using True by (subst tokenize.simps) (simp add: Let_def start_def k'_def)
    have "\<forall>w \<in> set (tokenize U kal k'). k' \<le> wstart w"
      using tokenize_props by blast
    then show ?thesis using ih by (simp add: eq)
  qed
qed

lemma tokenize_disjoint:
  assumes "i < j" "j < length (tokenize U kal k)"
  shows "wend (tokenize U kal k ! i) \<le> wstart (tokenize U kal k ! j)"
  using tokenize_sorted [of U kal k] assms by (simp add: sorted_wrt_iff_nth_less)

lemma tokenize_nth_props:
  assumes "i < length (tokenize U kal k)"
  shows "wstart (tokenize U kal k ! i) < wend (tokenize U kal k ! i)"
    and "wend (tokenize U kal k ! i) \<le> length kal"
    and "wstart (tokenize U kal k ! i) \<le> t \<Longrightarrow> t < wend (tokenize U kal k ! i)
           \<Longrightarrow> IsLetter U (kal ! t)"
  using tokenize_props [of "tokenize U kal k ! i" U kal k] assms by simp_all

lemma tokenize_other:
  assumes "i < length (tokenize U kal k)" "j < length (tokenize U kal k)" "i \<noteq> j"
    and "wstart (tokenize U kal k ! i) \<le> t" "t < wend (tokenize U kal k ! i)"
  shows "\<not> (wstart (tokenize U kal k ! j) \<le> t \<and> t < wend (tokenize U kal k ! j))"
proof (cases "i < j")
  case True
  then show ?thesis using tokenize_disjoint [of i j U kal k] assms by simp
next
  case False
  then have "j < i" using assms(3) by simp
  then show ?thesis using tokenize_disjoint [of j i U kal k] assms by simp
qed

lemma slice_cong:
  assumes "length xs = length ys" "e \<le> length xs"
    and "\<And>t. s \<le> t \<Longrightarrow> t < e \<Longrightarrow> xs ! t = ys ! t"
  shows "slice xs s e = slice ys s e"
proof (rule nth_equalityI)
  show "length (slice xs s e) = length (slice ys s e)"
    using assms(1,2) by (simp add: slice_def)
next
  fix t assume "t < length (slice xs s e)"
  then have "s + t < e" using assms(2) by (simp add: slice_def)
  then show "slice xs s e ! t = slice ys s e ! t"
    using assms by (simp add: slice_def)
qed

lemma decapWord_length: "length (decapWord U E H ws wi kal) = length kal"
  by (simp add: decapWord_def Let_def lowerSpan_length)

lemma decapWord_outside:
  "t < length kal \<Longrightarrow> \<not> (wstart (ws ! wi) \<le> t \<and> t < wend (ws ! wi))
   \<Longrightarrow> decapWord U E H ws wi kal ! t = kal ! t"
  by (auto simp: decapWord_def Let_def lowerSpan_nth)

lemma decapWord_nth_cases:
  "t < length kal \<Longrightarrow>
   decapWord U E H ws wi kal ! t = kal ! t \<or> decapWord U E H ws wi kal ! t = ToLower U (kal ! t)"
  by (simp add: decapWord_def Let_def lowerSpan_nth)

lemma fold_decapWord_length: "length (fold (decapWord U E H ws) is kal) = length kal"
  by (induction "is" arbitrary: kal) (simp_all add: decapWord_length)

lemma fold_decapWord_outside:
  "t < length kal \<Longrightarrow> \<forall>i \<in> set is. \<not> (wstart (ws ! i) \<le> t \<and> t < wend (ws ! i))
   \<Longrightarrow> fold (decapWord U E H ws) is kal ! t = kal ! t"
  by (induction "is" arbitrary: kal) (simp_all add: decapWord_length decapWord_outside)

lemma bufferAt_length: "length (bufferAt U E H kal wi) = length kal"
  by (simp add: bufferAt_def fold_decapWord_length)

lemma bufferAt_token:
  assumes "wi < length (tokenize U kal 0)"
    and "wstart (tokenize U kal 0 ! wi) \<le> t" "t < wend (tokenize U kal 0 ! wi)"
  shows "bufferAt U E H kal wi ! t = kal ! t"
proof -
  let ?ws = "tokenize U kal 0"
  have tl: "t < length kal" using tokenize_nth_props(2) [OF assms(1)] assms(3) by simp
  have "\<forall>i \<in> set [0..<wi]. \<not> (wstart (?ws ! i) \<le> t \<and> t < wend (?ws ! i))"
    using tokenize_other [of wi U kal 0 _ t] assms by auto
  then show ?thesis unfolding bufferAt_def using tl by (rule fold_decapWord_outside [rotated])
qed

lemma bufferAt_slice:
  assumes "wi < length (tokenize U kal 0)"
  shows "slice (bufferAt U E H kal wi) (wstart (tokenize U kal 0 ! wi)) (wend (tokenize U kal 0 ! wi))
       = slice kal (wstart (tokenize U kal 0 ! wi)) (wend (tokenize U kal 0 ! wi))"
proof (rule slice_cong)
  show "length (bufferAt U E H kal wi) = length kal" by (rule bufferAt_length)
  show "wend (tokenize U kal 0 ! wi) \<le> length (bufferAt U E H kal wi)"
    using tokenize_nth_props(2) [OF assms] by (simp add: bufferAt_length)
  show "bufferAt U E H kal wi ! t = kal ! t"
    if "wstart (tokenize U kal 0 ! wi) \<le> t" "t < wend (tokenize U kal 0 ! wi)" for t
    using bufferAt_token [OF assms that] .
qed

lemma decapSentence_split:
  assumes "wi < length (tokenize U kal 0)"
  shows "decapSentence U E H kal =
     fold (decapWord U E H (tokenize U kal 0)) [Suc wi..<length (tokenize U kal 0)]
       (decapWord U E H (tokenize U kal 0) wi (bufferAt U E H kal wi))"
proof -
  let ?n = "length (tokenize U kal 0)"
  have "[0..<?n] = [0..<wi] @ [wi..<?n]"
    using assms upt_add_eq_append [of 0 wi "?n - wi"] by simp
  moreover have "[wi..<?n] = wi # [Suc wi..<?n]"
    using assms by (simp add: upt_conv_Cons)
  ultimately have "[0..<?n] = [0..<wi] @ wi # [Suc wi..<?n]" by simp
  then show ?thesis by (simp add: decapSentence_def Let_def bufferAt_def)
qed

lemma decapSentence_length: "length (decapSentence U E H kal) = length kal"
  by (simp add: decapSentence_def Let_def fold_decapWord_length)

lemma decapSentence_token_nth:
  assumes "wi < length (tokenize U kal 0)"
    and "wstart (tokenize U kal 0 ! wi) \<le> t" "t < wend (tokenize U kal 0 ! wi)"
  shows "decapSentence U E H kal ! t =
     decapWord U E H (tokenize U kal 0) wi (bufferAt U E H kal wi) ! t"
proof -
  let ?ws = "tokenize U kal 0"
  have tl: "t < length kal" using tokenize_nth_props(2) [OF assms(1)] assms(3) by simp
  have "\<forall>i \<in> set [Suc wi..<length ?ws]. \<not> (wstart (?ws ! i) \<le> t \<and> t < wend (?ws ! i))"
    using tokenize_other [of wi U kal 0 _ t] assms by auto
  moreover have "t < length (decapWord U E H ?ws wi (bufferAt U E H kal wi))"
    using tl by (simp add: decapWord_length bufferAt_length)
  ultimately show ?thesis
    by (subst decapSentence_split [OF assms(1)]) (rule fold_decapWord_outside)
qed

lemma decapSentence_skipped:
  assumes "wi < length (tokenize U kal 0)"
    and "decapWord U E H (tokenize U kal 0) wi (bufferAt U E H kal wi) = bufferAt U E H kal wi"
  shows "slice (decapSentence U E H kal) (wstart (tokenize U kal 0 ! wi)) (wend (tokenize U kal 0 ! wi))
       = slice kal (wstart (tokenize U kal 0 ! wi)) (wend (tokenize U kal 0 ! wi))"
proof (rule slice_cong)
  show "length (decapSentence U E H kal) = length kal" by (rule decapSentence_length)
  show "wend (tokenize U kal 0 ! wi) \<le> length (decapSentence U E H kal)"
    using tokenize_nth_props(2) [OF assms(1)] by (simp add: decapSentence_length)
  show "decapSentence U E H kal ! t = kal ! t"
    if "wstart (tokenize U kal 0 ! wi) \<le> t" "t < wend (tokenize U kal 0 ! wi)" for t
    using decapSentence_token_nth [OF assms(1) that] bufferAt_token [OF assms(1) that]
    by (simp add: assms(2))
qed

lemma decapSentence_nth:
  assumes "t < length kal"
  shows "decapSentence U E H kal ! t = kal ! t \<or>
         (IsLetter U (kal ! t) \<and> decapSentence U E H kal ! t = ToLower U (kal ! t))"
proof (cases "\<exists>wi < length (tokenize U kal 0).
    wstart (tokenize U kal 0 ! wi) \<le> t \<and> t < wend (tokenize U kal 0 ! wi)")
  case False
  then have "\<forall>i \<in> set [0..<length (tokenize U kal 0)].
      \<not> (wstart (tokenize U kal 0 ! i) \<le> t \<and> t < wend (tokenize U kal 0 ! i))"
    by auto
  then have "decapSentence U E H kal ! t = kal ! t"
    unfolding decapSentence_def Let_def using assms by (rule fold_decapWord_outside [rotated])
  then show ?thesis by simp
next
  case True
  then obtain wi where wi: "wi < length (tokenize U kal 0)"
    and t: "wstart (tokenize U kal 0 ! wi) \<le> t" "t < wend (tokenize U kal 0 ! wi)"
    by blast
  have "IsLetter U (kal ! t)" using tokenize_nth_props(3) [OF wi t] .
  moreover have "decapSentence U E H kal ! t =
     decapWord U E H (tokenize U kal 0) wi (bufferAt U E H kal wi) ! t"
    using decapSentence_token_nth [OF wi t] .
  moreover have "bufferAt U E H kal wi ! t = kal ! t" using bufferAt_token [OF wi t] .
  moreover have "t < length (bufferAt U E H kal wi)" using assms by (simp add: bufferAt_length)
  ultimately show ?thesis
    using decapWord_nth_cases [of t "bufferAt U E H kal wi" U E H "tokenize U kal 0" wi]
    by auto
qed

lemma sentence_bounds:
  assumes "i < length rs"
  shows "i \<le> sentenceEndAt rs i \<and> sentenceEndAt rs i \<le> nextSentence U rs i \<and>
         nextSentence U rs i \<le> length rs \<and> i < nextSentence U rs i"
proof -
  let ?j = "sentenceEndAt rs i"
  let ?j1 = "if ?j < length rs \<and> isSentenceEnd (rs ! ?j) then ?j + 1 else ?j"
  have ij: "i \<le> ?j" by (simp add: sentenceEndAt_def scan_ge)
  have jn: "?j \<le> length rs" using assms by (simp add: sentenceEndAt_def scan_le)
  have stop: "?j < length rs \<longrightarrow> isSentenceEnd (rs ! ?j)"
    using scan_stop [of "\<lambda>r. \<not> isSentenceEnd r" rs i] by (simp add: sentenceEndAt_def)
  have j1: "?j \<le> ?j1" "?j1 \<le> length rs" using jn by auto
  have j2: "?j1 \<le> nextSentence U rs i"
    unfolding nextSentence_def Let_def by (rule scan_ge)
  have a: "?j \<le> nextSentence U rs i" using j1(1) j2 by linarith
  have b: "nextSentence U rs i \<le> length rs"
    unfolding nextSentence_def Let_def using j1(2) by (rule scan_le)
  have "i < ?j1"
  proof (cases "?j < length rs")
    case True
    then show ?thesis using ij stop by simp
  next
    case False
    then show ?thesis using jn assms by simp
  qed
  then have "i < nextSentence U rs i" using j2 by linarith
  then show ?thesis using ij a b by simp
qed

lemma slice_slice_append:
  "i \<le> j \<Longrightarrow> j \<le> k \<Longrightarrow> slice xs i j @ slice xs j k = slice xs i k"
proof -
  assume a: "i \<le> j" "j \<le> k"
  have "take (j - i) (drop i xs) @ take (k - j) (drop j xs)
      = take (j - i) (drop i xs) @ take (k - j) (drop (j - i) (drop i xs))"
    using a by simp
  also have "\<dots> = take ((j - i) + (k - j)) (drop i xs)"
    by (simp add: take_add)
  finally show ?thesis using a by (simp add: slice_def)
qed

lemma slice_drop: "i \<le> j \<Longrightarrow> slice xs i j @ drop j xs = drop i xs"
proof -
  assume a: "i \<le> j"
  have e: "drop (j - i) (drop i xs) = drop j xs" using a by simp
  have "take (j - i) (drop i xs) @ drop (j - i) (drop i xs) = drop i xs"
    by (rule append_take_drop_id)
  then show ?thesis unfolding slice_def e .
qed

lemma decapLoop_unfold:
  assumes "i < length rs"
  shows "decapLoop U E H rs i =
     decapSentence U E H (slice rs i (sentenceEndAt rs i))
     @ slice rs (sentenceEndAt rs i) (nextSentence U rs i)
     @ decapLoop U E H rs (nextSentence U rs i)"
proof -
  define j where "j = scan (\<lambda>r. \<not> isSentenceEnd r) rs i"
  define j1 where "j1 = (if j < length rs \<and> isSentenceEnd (rs ! j) then j + 1 else j)"
  define j2 where "j2 = scan (IsSpace U) rs j1"
  have e1: "sentenceEndAt rs i = j" by (simp add: sentenceEndAt_def j_def)
  have e2: "nextSentence U rs i = j2"
    by (simp add: nextSentence_def Let_def sentenceEndAt_def j_def j1_def j2_def)
  have "decapLoop U E H rs i =
      decapSentence U E H (slice rs i j) @ slice rs j j1 @ slice rs j1 j2 @ decapLoop U E H rs j2"
    using assms by (subst decapLoop.simps) (simp add: Let_def j_def j1_def j2_def)
  moreover have "slice rs j j1 @ slice rs j1 j2 = slice rs j j2"
    by (rule slice_slice_append) (simp_all add: j1_def j2_def scan_ge)
  ultimately show ?thesis by (simp add: e1 e2)
qed

lemma sentenceSpans_unfold:
  assumes "i < length rs"
  shows "sentenceSpans U rs i = (i, sentenceEndAt rs i) # sentenceSpans U rs (nextSentence U rs i)"
  using assms
  by (subst sentenceSpans.simps) (simp add: Let_def sentenceEndAt_def nextSentence_def)

lemma decapLoop_length: "length (decapLoop U E H rs i) = length rs - i"
proof (induction "length rs - i" arbitrary: i rule: less_induct)
  case less
  show ?case
  proof (cases "i < length rs")
    case False
    then show ?thesis by (subst decapLoop.simps) simp
  next
    case True
    note b = sentence_bounds [OF True, where U = U]
    have "length rs - nextSentence U rs i < length rs - i" using b True by linarith
    then have "length (decapLoop U E H rs (nextSentence U rs i)) = length rs - nextSentence U rs i"
      by (rule less)
    then show ?thesis
      using b by (simp add: decapLoop_unfold [OF True] decapSentence_length slice_length)
  qed
qed

lemma decapLoop_rel:
  "list_all2 (\<lambda>x y. y = x \<or> (IsLetter U x \<and> y = ToLower U x))
     (drop i rs) (decapLoop U E H rs i)"
proof (induction "length rs - i" arbitrary: i rule: less_induct)
  case less
  let ?R = "\<lambda>x y. y = x \<or> (IsLetter U x \<and> y = ToLower U x)"
  show ?case
  proof (cases "i < length rs")
    case False
    then show ?thesis by (subst decapLoop.simps) simp
  next
    case True
    note b = sentence_bounds [OF True, where U = U]
    let ?j = "sentenceEndAt rs i" and ?j2 = "nextSentence U rs i"
    have d: "drop i rs = slice rs i ?j @ slice rs ?j ?j2 @ drop ?j2 rs"
      using b by (simp add: slice_drop)
    have jl: "?j \<le> length rs" using b by linarith
    have r1: "list_all2 ?R (slice rs i ?j) (decapSentence U E H (slice rs i ?j))"
      by (rule list_all2_all_nthI)
         (simp_all add: decapSentence_length decapSentence_nth)
    have r2: "list_all2 ?R (slice rs ?j ?j2) (slice rs ?j ?j2)"
      by (simp add: list_all2_conv_all_nth)
    have "length rs - ?j2 < length rs - i" using b True by linarith
    then have r3: "list_all2 ?R (drop ?j2 rs) (decapLoop U E H rs ?j2)"
      by (rule less)
    show ?thesis
      unfolding d decapLoop_unfold [OF True]
      using r1 r2 r3 by (intro list_all2_appendI)
  qed
qed

lemma slice_append_left: "e \<le> length xs \<Longrightarrow> slice (xs @ ys) s e = slice xs s e"
  by (simp add: slice_def)

lemma slice_append_right:
  "length xs \<le> s \<Longrightarrow> slice (xs @ ys) s e = slice ys (s - length xs) (e - length xs)"
  by (simp add: slice_def)

lemma slice_slice:
  assumes "e \<le> b - a"
  shows "slice (slice xs a b) s e = slice xs (a + s) (a + e)"
proof -
  have "drop s (take (b - a) (drop a xs)) = take (b - a - s) (drop (a + s) xs)"
    by (simp add: drop_take add.commute)
  then have "slice (slice xs a b) s e = take (min (e - s) (b - a - s)) (drop (a + s) xs)"
    by (simp add: slice_def)
  moreover have "min (e - s) (b - a - s) = e - s" using assms by simp
  ultimately show ?thesis by (simp add: slice_def)
qed

lemma sentenceSpans_link:
  "(a, b) \<in> set (sentenceSpans U rs i) \<Longrightarrow>
   i \<le> a \<and> a \<le> b \<and> b \<le> length rs \<and>
   slice (decapLoop U E H rs i) (a - i) (b - i) = decapSentence U E H (slice rs a b)"
proof (induction "length rs - i" arbitrary: i rule: less_induct)
  case less
  show ?case
  proof (cases "i < length rs")
    case False
    then have "sentenceSpans U rs i = []" by (subst sentenceSpans.simps) simp
    with less.prems show ?thesis by simp
  next
    case True
    note b = sentence_bounds [OF True, where U = U]
    let ?j = "sentenceEndAt rs i" and ?j2 = "nextSentence U rs i"
    let ?D = "decapSentence U E H (slice rs i ?j)"
    have jl: "?j \<le> length rs" using b by linarith
    have lD: "length ?D = ?j - i" using jl by (simp add: decapSentence_length slice_length)
    from less.prems consider (here) "a = i" "b = ?j"
      | (later) "(a, b) \<in> set (sentenceSpans U rs ?j2)"
      by (auto simp: sentenceSpans_unfold [OF True])
    then show ?thesis
    proof cases
      case here
      have "slice (?D @ slice rs ?j ?j2 @ decapLoop U E H rs ?j2) 0 (?j - i) = ?D"
        using lD by (simp add: slice_append_left slice_def)
      then show ?thesis using here b jl by (simp add: decapLoop_unfold [OF True])
    next
      case later
      have "length rs - ?j2 < length rs - i" using b True by linarith
      then have ih: "?j2 \<le> a \<and> a \<le> b \<and> b \<le> length rs \<and>
        slice (decapLoop U E H rs ?j2) (a - ?j2) (b - ?j2) = decapSentence U E H (slice rs a b)"
        using later by (rule less.hyps)
      let ?P = "?D @ slice rs ?j ?j2"
      have lP: "length ?P = ?j2 - i" using lD b jl by (simp add: slice_length)
      have "slice (?P @ decapLoop U E H rs ?j2) (a - i) (b - i)
          = slice (decapLoop U E H rs ?j2) (a - i - length ?P) (b - i - length ?P)"
      proof (rule slice_append_right)
        show "length ?P \<le> a - i" using ih lP b by linarith
      qed
      also have "\<dots> = slice (decapLoop U E H rs ?j2) (a - ?j2) (b - ?j2)"
        using lP b by simp
      finally show ?thesis using ih b by (simp add: decapLoop_unfold [OF True])
    qed
  qed
qed

lemma isAllCapsLoop_iff:
  "isAllCapsLoop U has rs \<longleftrightarrow>
     (\<forall>r \<in> set rs. IsLetter U r \<longrightarrow> IsUpper U r) \<and> (has \<or> (\<exists>r \<in> set rs. IsLetter U r))"
  by (induction rs arbitrary: has) auto

lemma isAllCaps_iff:
  "isAllCaps U rs \<longleftrightarrow>
     (\<exists>r \<in> set rs. IsLetter U r) \<and> (\<forall>r \<in> set rs. IsLetter U r \<longrightarrow> IsUpper U r)"
  by (auto simp: isAllCaps_def isAllCapsLoop_iff)

lemma defaultExceptions_member:
  assumes "w \<in> dom defaultExceptions"
  shows "lookupBool defaultExceptions w"
proof -
  from assms obtain v where v: "defaultExceptions w = Some v" by blast
  then have "(w, v) \<in> set
     [(runes ''Indonesia'', True), (runes ''Jakarta'', True), (runes ''Sahabat'', True),
      (runes ''Sampoerna'', True), (runes ''Call'', True), (runes ''Center'', True),
      (runes ''ATM'', True), (runes ''KTP'', True), (runes ''BI'', True),
      (runes ''BNI'', True), (runes ''BCA'', True)]"
    unfolding defaultExceptions_def by (rule map_of_SomeD)
  then have "v" by auto
  then show ?thesis using v by (simp add: lookupBool_def)
qed

lemma token_slice:
  assumes "(a, b) \<in> set (sentenceSpans U s 0)"
    and "wi < length (tokenize U (slice s a b) 0)"
  shows "slice (slice xs a b) (wstart (tokenize U (slice s a b) 0 ! wi))
            (wend (tokenize U (slice s a b) 0 ! wi))
       = slice xs (a + wstart (tokenize U (slice s a b) 0 ! wi))
            (a + wend (tokenize U (slice s a b) 0 ! wi))"
proof (rule slice_slice)
  have "b \<le> length s" using sentenceSpans_link [OF assms(1)] by simp
  then have "length (slice s a b) = b - a" by (rule slice_length)
  then show "wend (tokenize U (slice s a b) 0 ! wi) \<le> b - a"
    using tokenize_nth_props(2) [OF assms(2)] by simp
qed

lemma token_kept:
  assumes sp: "(a, b) \<in> set (sentenceSpans U s 0)"
    and wi: "wi < length (tokenize U (slice s a b) 0)"
    and skip: "decapWord U E H (tokenize U (slice s a b) 0) wi (bufferAt U E H (slice s a b) wi)
               = bufferAt U E H (slice s a b) wi"
  shows "slice (decapitalizeMidSentence s E H U)
            (a + wstart (tokenize U (slice s a b) 0 ! wi))
            (a + wend (tokenize U (slice s a b) 0 ! wi))
       = slice s (a + wstart (tokenize U (slice s a b) 0 ! wi))
            (a + wend (tokenize U (slice s a b) 0 ! wi))"
proof -
  let ?w = "tokenize U (slice s a b) 0 ! wi"
  have "slice (decapLoop U E H s 0) a b = decapSentence U E H (slice s a b)"
    using sentenceSpans_link [OF sp, of E H] by simp
  then have "slice (slice (decapLoop U E H s 0) a b) (wstart ?w) (wend ?w)
      = slice (slice s a b) (wstart ?w) (wend ?w)"
    using decapSentence_skipped [OF wi skip] by simp
  then show ?thesis
    by (simp only: token_slice [OF sp wi] decapitalizeMidSentence_def)
qed

lemma skip_first: "decapWord U E H ws 0 kal = kal"
  by (simp add: decapWord_def)

lemma skip_allcaps:
  assumes "wi < length (tokenize U kal 0)"
    and "isAllCaps U (slice kal (wstart (tokenize U kal 0 ! wi)) (wend (tokenize U kal 0 ! wi)))"
  shows "decapWord U E H (tokenize U kal 0) wi (bufferAt U E H kal wi) = bufferAt U E H kal wi"
  using assms(2) by (simp add: decapWord_def Let_def bufferAt_slice [OF assms(1)])

lemma skip_exception:
  assumes "wi < length (tokenize U kal 0)"
    and "lookupBool E (slice kal (wstart (tokenize U kal 0 ! wi)) (wend (tokenize U kal 0 ! wi)))"
  shows "decapWord U E H (tokenize U kal 0) wi (bufferAt U E H kal wi) = bufferAt U E H kal wi"
  using assms(2) by (simp add: decapWord_def Let_def bufferAt_slice [OF assms(1)])

lemma slice_single: "i < length xs \<Longrightarrow> slice xs i (i + 1) = [xs ! i]"
  by (simp add: slice_def take_Suc_conv_app_nth Cons_nth_drop_Suc [symmetric])


section \<open>Properties of \<open>IsSentenceCapitalized\<close>\<close>

lemma find_dropWhile:
  assumes "\<And>x. Q x \<Longrightarrow> \<not> P x"
  shows "find P (dropWhile Q xs) = find P xs"
  using assms by (induction xs) auto

lemma find_append_none:
  assumes "\<forall>x \<in> set ys. \<not> P x"
  shows "find P (xs @ ys) = find P xs"
proof (induction xs)
  case Nil
  show ?case using assms by (simp add: find_None_iff)
next
  case (Cons x xs)
  then show ?case by simp
qed

lemma find_TrimSpace:
  assumes "\<forall>r. IsSpace U r \<longrightarrow> \<not> IsLetter U r"
  shows "find (IsLetter U) (TrimSpace U s) = find (IsLetter U) s"
proof -
  let ?a = "dropWhile (IsSpace U) s"
  have split: "?a = rev (dropWhile (IsSpace U) (rev ?a)) @ rev (takeWhile (IsSpace U) (rev ?a))"
    by (metis rev_append rev_rev_ident takeWhile_dropWhile_id)
  have "\<forall>x \<in> set (rev (takeWhile (IsSpace U) (rev ?a))). \<not> IsLetter U x"
    using assms by (auto dest: set_takeWhileD)
  then have "find (IsLetter U) (rev (dropWhile (IsSpace U) (rev ?a)) @ rev (takeWhile (IsSpace U) (rev ?a)))
      = find (IsLetter U) (rev (dropWhile (IsSpace U) (rev ?a)))"
    by (rule find_append_none)
  then have "find (IsLetter U) ?a = find (IsLetter U) (TrimSpace U s)"
    using split by (simp add: TrimSpace_def)
  moreover have "find (IsLetter U) ?a = find (IsLetter U) s"
    using assms by (intro find_dropWhile) simp
  ultimately show ?thesis by simp
qed

lemma firstLetterIndex_find:
  "(case find (IsLetter U) s of None \<Rightarrow> firstLetterIndex U s 0 = - 1
    | Some r \<Rightarrow> firstLetterIndex U s 0 \<ge> 0 \<and> s ! nat (firstLetterIndex U s 0) = r)"
proof (induction s)
  case Nil
  show ?case by (simp add: firstLetterIndex_def scan_def)
next
  case (Cons x xs)
  show ?case
  proof (cases "IsLetter U x")
    case True
    then show ?thesis by (simp add: firstLetterIndex_def scan_def)
  next
    case False
    have eq: "scan (\<lambda>x. \<not> IsLetter U x) (x # xs) 0 = Suc (scan (\<lambda>x. \<not> IsLetter U x) xs 0)"
      using False by (simp add: scan_def)
    show ?thesis
    proof (cases "find (IsLetter U) xs")
      case None
      with Cons False show ?thesis
        by (simp add: firstLetterIndex_def Let_def eq split: if_splits)
    next
      case (Some r)
      with Cons False show ?thesis
        by (simp add: firstLetterIndex_def Let_def eq nat_add_distrib split: if_splits)
    qed
  qed
qed

lemma IsSentenceCapitalized_find:
  assumes "\<forall>r. IsSpace U r \<longrightarrow> \<not> IsLetter U r"
  shows "IsSentenceCapitalized U s
       = (case find (IsLetter U) s of None \<Rightarrow> True | Some r \<Rightarrow> IsUpper U r)"
proof -
  let ?t = "TrimSpace U s"
  have f: "find (IsLetter U) ?t = find (IsLetter U) s" using assms by (rule find_TrimSpace)
  show ?thesis
  proof (cases "find (IsLetter U) s")
    case None
    then have "firstLetterIndex U ?t 0 = - 1"
      using firstLetterIndex_find [of U ?t] f by simp
    then show ?thesis using None by (simp add: IsSentenceCapitalized_def Let_def)
  next
    case (Some r)
    then have "firstLetterIndex U ?t 0 \<ge> 0 \<and> ?t ! nat (firstLetterIndex U ?t 0) = r"
      using firstLetterIndex_find [of U ?t] f by simp
    moreover have "?t \<noteq> []" using Some f by auto
    ultimately show ?thesis using Some by (simp add: IsSentenceCapitalized_def Let_def)
  qed
qed


section \<open>Runs of \<open>SanitizeToPUEBI\<close>\<close>

lemma sanitize_greeting:
  "SanitizeToPUEBI ascii (runes ''Hai luqmanul hakim,'') = runes ''Hai Luqmanul hakim,''"
  by code_simp

lemma sanitize_greeting_again:
  "SanitizeToPUEBI ascii (runes ''Hai Luqmanul hakim,'') = runes ''Hai Luqmanul hakim,''"
  by code_simp

lemma sanitize_transfer:
  "SanitizeToPUEBI ascii
     (runes ''...Transfer Real Time dari rekening 1023613267 sejumlah Rp 12.000....'')
   = runes ''... Transfer real time dari rekening 1023613267 sejumlah Rp12.000 ...''"
  by code_simp

lemma sanitize_transfer_again:
  "SanitizeToPUEBI ascii
     (runes ''... Transfer real time dari rekening 1023613267 sejumlah Rp12.000 ...'')
   = runes ''... Transfer real time dari rekening 1023613267 sejumlah Rp12.000 ...''"
  by code_simp


lemma sanitize_call_center:
  "SanitizeToPUEBI ascii (runes ''Hubungi Call Center 1500 035.'') = runes ''Hubungi Call Center 1500 035.''"
  by code_simp

lemma sanitize_dirumah:
  "SanitizeToPUEBI ascii (runes ''dirumah saya'') = runes ''Di rumah saya''"
  by code_simp

lemma sanitize_dirumah_again:
  "SanitizeToPUEBI ascii (runes ''Di rumah saya'') = runes ''Di rumah saya''"
  by code_simp

lemma sanitize_blank:
  "SanitizeToPUEBI ascii (runes ''   '') = runes ''   ''"
  "SanitizeToPUEBI ascii [] = []"
  by code_simp+

lemma sanitize_dots:
  "SanitizeToPUEBI ascii (runes ''a.b.c'') = runes ''A. B.C''"
  by code_simp

lemma sanitize_dots_again:
  "SanitizeToPUEBI ascii (runes ''A. B.C'') = runes ''A. B. C''"
  by code_simp

lemma dots_differ: "runes ''A. B. C'' \<noteq> runes ''A. B.C''"
  by code_simp


section \<open>The claims\<close>

text \<open>
  C1. The claim: for every word \<open>H\<close> of \<open>protectedHeads\<close> and every sentence with a
  token of exact text \<open>H\<close> at an index \<open>i > 0\<close>, the token at \<open>i + 1\<close> is left
  unchanged even when it is TitleCase, and the token at \<open>i + 2\<close> is not protected.
  The engine reads the previous word from the buffer \<open>kal\<close> it rewrites in place: in
  \<open>Saya di Jalan Sudirman\<close> the head \<open>Jalan\<close> (index 2) is lowered first, the
  test \<open>heads[prev]\<close> for \<open>Sudirman\<close> (index 3) then reads \<open>jalan\<close>, and the
  successor is lowered as well.
\<close>

theorem head_lowered_before_successor:
  "(0, 22) \<in> set (sentenceSpans ascii (runes ''Saya di Jalan Sudirman'') 0)
   \<and> tokenize ascii (slice (runes ''Saya di Jalan Sudirman'') 0 22) 0
       = [\<lparr> wstart = 0, wend = 4 \<rparr>, \<lparr> wstart = 5, wend = 7 \<rparr>,
          \<lparr> wstart = 8, wend = 13 \<rparr>, \<lparr> wstart = 14, wend = 22 \<rparr>]
   \<and> slice (runes ''Saya di Jalan Sudirman'') 8 13 = runes ''Jalan''
   \<and> lookupBool protectedHeads (runes ''Jalan'')
   \<and> slice (runes ''Saya di Jalan Sudirman'') 14 22 = runes ''Sudirman''
   \<and> isTitleCase ascii (runes ''Sudirman'')
   \<and> slice (bufferAt ascii defaultExceptions protectedHeads (runes ''Saya di Jalan Sudirman'') 3)
         8 13 = runes ''jalan''
   \<and> \<not> lookupBool protectedHeads (runes ''jalan'')
   \<and> decapitalizeMidSentence (runes ''Saya di Jalan Sudirman'') defaultExceptions
         protectedHeads ascii = runes ''Saya di jalan sudirman''"
  by code_simp

text \<open>
  C2. The claim: \<open>SanitizeToPUEBI\<close> returns \<open>Hai Luqmanul Hakim,\<close> for the input
  \<open>Hai luqmanul hakim,\<close>. The greeting pass does capitalize both name tokens, as its
  comment says, but the decapitalization pass after it protects only the token right
  after \<open>Hai\<close> and lowers \<open>Hakim\<close> again: the result is \<open>Hai Luqmanul hakim,\<close>.
\<close>

theorem greeting_name_lowered_again:
  "fixGreetingNameCase ascii (runes ''Hai luqmanul hakim,'') = runes ''Hai Luqmanul Hakim,''
   \<and> decapitalizeMidSentence (runes ''Hai Luqmanul Hakim,'') defaultExceptions protectedHeads
         ascii = runes ''Hai Luqmanul hakim,''
   \<and> SanitizeToPUEBI ascii (runes ''Hai luqmanul hakim,'') = runes ''Hai Luqmanul hakim,''"
proof -
  have "fixGreetingNameCase ascii (runes ''Hai luqmanul hakim,'') = runes ''Hai Luqmanul Hakim,''"
    by code_simp
  moreover have "decapitalizeMidSentence (runes ''Hai Luqmanul Hakim,'') defaultExceptions
      protectedHeads ascii = runes ''Hai Luqmanul hakim,''"
    by code_simp
  ultimately show ?thesis using sanitize_greeting by simp
qed

text \<open>
  C3. The claim: a word token at an index \<open>wi > 0\<close> that is a single uppercase letter,
  not in the exception set and not after a protected head, is classified as TitleCase
  and rewritten to lowercase. It fails at the token \<open>B\<close> of \<open>a B c\<close>, which the
  engine returns unchanged.
\<close>

theorem single_upper_letter_counterexample:
  "(0, 5) \<in> set (sentenceSpans ascii (runes ''a B c'') 0)
   \<and> tokenize ascii (slice (runes ''a B c'') 0 5) 0 ! 1 = \<lparr> wstart = 2, wend = 3 \<rparr>
   \<and> slice (runes ''a B c'') 2 3 = runes ''B''
   \<and> IsUpper ascii (runes ''a B c'' ! 2)
   \<and> isTitleCase ascii (runes ''B'')
   \<and> \<not> lookupBool defaultExceptions (runes ''B'')
   \<and> slice (runes ''a B c'') 0 1 = runes ''a''
   \<and> \<not> lookupBool protectedHeads (runes ''a'')
   \<and> decapitalizeMidSentence (runes ''a B c'') defaultExceptions protectedHeads ascii
       = runes ''a B c''
   \<and> decapitalizeMidSentence (runes ''a B c'') defaultExceptions protectedHeads ascii ! 2
       \<noteq> ToLower ascii (runes ''a B c'' ! 2)"
  by code_simp

text \<open>
  C3, amended. A word token that is a single uppercase letter satisfies both
  \<open>isTitleCase\<close> and \<open>isAllCaps\<close>; the engine tests \<open>isAllCaps\<close> first and skips the
  token, so the letter is left unchanged (at every index, in or out of the exception
  set, after a protected head or not).
\<close>

theorem single_upper_letter_kept:
  assumes "(a, b) \<in> set (sentenceSpans U s 0)"
    and "wi < length (tokenize U (slice s a b) 0)"
    and "w = tokenize U (slice s a b) 0 ! wi"
    and "wend w = wstart w + 1"
    and "IsUpper U (s ! (a + wstart w))"
  shows "isTitleCase U (slice s (a + wstart w) (a + wend w))
       \<and> isAllCaps U (slice s (a + wstart w) (a + wend w))
       \<and> slice (decapitalizeMidSentence s E H U) (a + wstart w) (a + wend w)
           = slice s (a + wstart w) (a + wend w)"
proof -
  let ?kal = "slice s a b"
  have bl: "b \<le> length s" and ab: "a \<le> b"
    using sentenceSpans_link [OF assms(1)] by simp_all
  have kl: "length ?kal = b - a" using bl by (rule slice_length)
  have we: "wend w \<le> b - a"
    unfolding assms(3) using tokenize_nth_props(2) [OF assms(2)] kl by simp
  then have lt: "a + wstart w < length s" using assms(4) bl ab by linarith
  have "?kal ! wstart w = s ! (a + wstart w)"
    using we assms(4) bl by (intro slice_nth) simp_all
  moreover have "IsLetter U (?kal ! wstart w)"
    unfolding assms(3)
    by (rule tokenize_nth_props(3) [OF assms(2)]) (simp_all add: assms(3) [symmetric] assms(4))
  ultimately have letter: "IsLetter U (s ! (a + wstart w))" by simp
  have one: "slice s (a + wstart w) (a + wend w) = [s ! (a + wstart w)]"
    using slice_single [OF lt] by (simp add: assms(4))
  have title: "isTitleCase U (slice s (a + wstart w) (a + wend w))"
    using assms(5) by (simp add: one)
  have caps: "isAllCaps U (slice s (a + wstart w) (a + wend w))"
    using assms(5) letter by (simp add: one isAllCaps_def)
  then have "isAllCaps U (slice ?kal (wstart w) (wend w))"
    unfolding assms(3) by (simp only: token_slice [OF assms(1,2)])
  then have "decapWord U E H (tokenize U ?kal 0) wi (bufferAt U E H ?kal wi)
      = bufferAt U E H ?kal wi"
    unfolding assms(3) by (rule skip_allcaps [OF assms(2)])
  with assms(1,2) have "slice (decapitalizeMidSentence s E H U) (a + wstart w) (a + wend w)
           = slice s (a + wstart w) (a + wend w)"
    unfolding assms(3) by (rule token_kept)
  with title caps show ?thesis by simp
qed

theorem single_upper_letter_kept_witness:
  "(0, 5) \<in> set (sentenceSpans ascii (runes ''a B c'') 0)
   \<and> 1 < length (tokenize ascii (slice (runes ''a B c'') 0 5) 0)
   \<and> tokenize ascii (slice (runes ''a B c'') 0 5) 0 ! 1 = \<lparr> wstart = 2, wend = 3 \<rparr>
   \<and> IsUpper ascii (runes ''a B c'' ! 2)
   \<and> isTitleCase ascii (slice (runes ''a B c'') 2 3)
   \<and> isAllCaps ascii (slice (runes ''a B c'') 2 3)
   \<and> slice (decapitalizeMidSentence (runes ''a B c'') defaultExceptions protectedHeads ascii) 2 3
       = slice (runes ''a B c'') 2 3"
proof -
  let ?s = "runes ''a B c''"
  have h1: "(0, 5) \<in> set (sentenceSpans ascii ?s 0)" by code_simp
  have h2: "1 < length (tokenize ascii (slice ?s 0 5) 0)" by code_simp
  have tk: "tokenize ascii (slice ?s 0 5) 0 ! 1 = \<lparr> wstart = 2, wend = 3 \<rparr>" by code_simp
  have h4: "wend (tokenize ascii (slice ?s 0 5) 0 ! 1) = wstart (tokenize ascii (slice ?s 0 5) 0 ! 1) + 1"
    unfolding tk by simp
  have up: "IsUpper ascii (?s ! 2)" by code_simp
  have h5: "IsUpper ascii (?s ! (0 + wstart (tokenize ascii (slice ?s 0 5) 0 ! 1)))"
    unfolding tk by code_simp
  have th: "isTitleCase ascii (slice ?s 2 3) \<and> isAllCaps ascii (slice ?s 2 3)
     \<and> slice (decapitalizeMidSentence ?s defaultExceptions protectedHeads ascii) 2 3
         = slice ?s 2 3"
    using single_upper_letter_kept [OF h1 h2 refl h4 h5, of defaultExceptions protectedHeads]
    by (simp only: tk wordPos.select_convs add_0)
  show ?thesis using th h1 h2 tk up by blast
qed

text \<open>
  C4. For every input and every sentence span \<open>[a, b)\<close> of the engine's loop, the word
  token at index 0 of the sentence is not rewritten: its runes in the output are its
  runes in the input, whatever its case shape.
\<close>

theorem first_word_never_rewritten:
  assumes "(a, b) \<in> set (sentenceSpans U s 0)"
    and "0 < length (tokenize U (slice s a b) 0)"
    and "w = tokenize U (slice s a b) 0 ! 0"
  shows "slice (decapitalizeMidSentence s E H U) (a + wstart w) (a + wend w)
       = slice s (a + wstart w) (a + wend w)"
  unfolding assms(3) using assms(1,2) skip_first by (rule token_kept)

theorem first_word_never_rewritten_witness:
  "(16, 23) \<in> set (sentenceSpans ascii (runes ''Ada Kabar Baru. Apa Itu'') 0)
   \<and> 0 < length (tokenize ascii (slice (runes ''Ada Kabar Baru. Apa Itu'') 16 23) 0)
   \<and> tokenize ascii (slice (runes ''Ada Kabar Baru. Apa Itu'') 16 23) 0 ! 0
       = \<lparr> wstart = 0, wend = 3 \<rparr>
   \<and> slice (decapitalizeMidSentence (runes ''Ada Kabar Baru. Apa Itu'')
              defaultExceptions protectedHeads ascii) 16 19 = runes ''Apa''"
proof -
  let ?s = "runes ''Ada Kabar Baru. Apa Itu''"
  have h1: "(16, 23) \<in> set (sentenceSpans ascii ?s 0)" by code_simp
  have h2: "0 < length (tokenize ascii (slice ?s 16 23) 0)" by code_simp
  have tk: "tokenize ascii (slice ?s 16 23) 0 ! 0 = \<lparr> wstart = 0, wend = 3 \<rparr>" by code_simp
  have "slice (decapitalizeMidSentence ?s defaultExceptions protectedHeads ascii) 16 19
      = slice ?s 16 19"
    using first_word_never_rewritten
      [OF h1 h2 refl, of defaultExceptions protectedHeads, unfolded tk]
    by simp
  moreover have "slice ?s 16 19 = runes ''Apa''" by code_simp
  ultimately show ?thesis using h1 h2 tk by simp
qed

text \<open>
  C5. For every input, a word token (at any index, in any sentence) that contains a
  letter and whose letters are all uppercase is left unchanged by the engine.
\<close>

theorem all_caps_token_unchanged:
  assumes "(a, b) \<in> set (sentenceSpans U s 0)"
    and "wi < length (tokenize U (slice s a b) 0)"
    and "w = tokenize U (slice s a b) 0 ! wi"
    and "\<exists>r \<in> set (slice s (a + wstart w) (a + wend w)). IsLetter U r"
    and "\<forall>r \<in> set (slice s (a + wstart w) (a + wend w)). IsLetter U r \<longrightarrow> IsUpper U r"
  shows "slice (decapitalizeMidSentence s E H U) (a + wstart w) (a + wend w)
       = slice s (a + wstart w) (a + wend w)"
proof -
  have "isAllCaps U (slice s (a + wstart w) (a + wend w))"
    using assms(4,5) by (simp add: isAllCaps_iff)
  then have "isAllCaps U (slice (slice s a b) (wstart w) (wend w))"
    unfolding assms(3) by (simp only: token_slice [OF assms(1,2)])
  then have "decapWord U E H (tokenize U (slice s a b) 0) wi (bufferAt U E H (slice s a b) wi)
      = bufferAt U E H (slice s a b) wi"
    unfolding assms(3) by (rule skip_allcaps [OF assms(2)])
  with assms(1,2) show ?thesis unfolding assms(3) by (rule token_kept)
qed

theorem all_caps_token_unchanged_witness:
  "(0, 15) \<in> set (sentenceSpans ascii (runes ''nomor NPWP Anda'') 0)
   \<and> 1 < length (tokenize ascii (slice (runes ''nomor NPWP Anda'') 0 15) 0)
   \<and> tokenize ascii (slice (runes ''nomor NPWP Anda'') 0 15) 0 ! 1 = \<lparr> wstart = 6, wend = 10 \<rparr>
   \<and> slice (runes ''nomor NPWP Anda'') 6 10 = runes ''NPWP''
   \<and> list_all (\<lambda>r. IsLetter ascii r \<and> IsUpper ascii r) (runes ''NPWP'')
   \<and> slice (decapitalizeMidSentence (runes ''nomor NPWP Anda'')
              defaultExceptions protectedHeads ascii) 6 10 = runes ''NPWP''"
proof -
  let ?s = "runes ''nomor NPWP Anda''"
  have h1: "(0, 15) \<in> set (sentenceSpans ascii ?s 0)" by code_simp
  have h2: "1 < length (tokenize ascii (slice ?s 0 15) 0)" by code_simp
  have tk: "tokenize ascii (slice ?s 0 15) 0 ! 1 = \<lparr> wstart = 6, wend = 10 \<rparr>" by code_simp
  have sl: "slice ?s 6 10 = runes ''NPWP''" by code_simp
  have up: "list_all (\<lambda>r. IsLetter ascii r \<and> IsUpper ascii r) (runes ''NPWP'')" by code_simp
  have h4: "\<exists>r \<in> set (slice ?s (0 + wstart (tokenize ascii (slice ?s 0 15) 0 ! 1))
                 (0 + wend (tokenize ascii (slice ?s 0 15) 0 ! 1))). IsLetter ascii r"
    unfolding tk by code_simp
  have h5: "\<forall>r \<in> set (slice ?s (0 + wstart (tokenize ascii (slice ?s 0 15) 0 ! 1))
                 (0 + wend (tokenize ascii (slice ?s 0 15) 0 ! 1))).
              IsLetter ascii r \<longrightarrow> IsUpper ascii r"
    unfolding tk by code_simp
  have "slice (decapitalizeMidSentence ?s defaultExceptions protectedHeads ascii) 6 10
      = slice ?s 6 10"
    using all_caps_token_unchanged
      [OF h1 h2 refl h4 h5, of defaultExceptions protectedHeads, unfolded tk]
    by simp
  then show ?thesis using h1 h2 tk sl up by simp
qed

text \<open>
  C6. For every input, a word token whose exact text is a key of the fixed exception set
  (\<open>defaultExceptions\<close>) is left unchanged by the engine, at any position of its sentence
  and whatever the protected heads and its neighbours are.
\<close>

theorem exception_token_unchanged:
  assumes "(a, b) \<in> set (sentenceSpans U s 0)"
    and "wi < length (tokenize U (slice s a b) 0)"
    and "w = tokenize U (slice s a b) 0 ! wi"
    and "slice s (a + wstart w) (a + wend w) \<in> dom defaultExceptions"
  shows "slice (decapitalizeMidSentence s defaultExceptions H U) (a + wstart w) (a + wend w)
       = slice s (a + wstart w) (a + wend w)"
proof -
  have "lookupBool defaultExceptions (slice s (a + wstart w) (a + wend w))"
    using assms(4) by (rule defaultExceptions_member)
  then have "lookupBool defaultExceptions (slice (slice s a b) (wstart w) (wend w))"
    unfolding assms(3) by (simp only: token_slice [OF assms(1,2)])
  then have "decapWord U defaultExceptions H (tokenize U (slice s a b) 0) wi
        (bufferAt U defaultExceptions H (slice s a b) wi)
      = bufferAt U defaultExceptions H (slice s a b) wi"
    unfolding assms(3) by (rule skip_exception [OF assms(2)])
  with assms(1,2) show ?thesis unfolding assms(3) by (rule token_kept)
qed

theorem exception_token_unchanged_witness:
  "(0, 19) \<in> set (sentenceSpans ascii (runes ''hubungi Call Center'') 0)
   \<and> 1 < length (tokenize ascii (slice (runes ''hubungi Call Center'') 0 19) 0)
   \<and> tokenize ascii (slice (runes ''hubungi Call Center'') 0 19) 0 ! 1 = \<lparr> wstart = 8, wend = 12 \<rparr>
   \<and> slice (runes ''hubungi Call Center'') 8 12 = runes ''Call''
   \<and> defaultExceptions (runes ''Call'') = Some True
   \<and> slice (decapitalizeMidSentence (runes ''hubungi Call Center'')
              defaultExceptions protectedHeads ascii) 8 12 = runes ''Call''"
proof -
  let ?s = "runes ''hubungi Call Center''"
  have h1: "(0, 19) \<in> set (sentenceSpans ascii ?s 0)" by code_simp
  have h2: "1 < length (tokenize ascii (slice ?s 0 19) 0)" by code_simp
  have tk: "tokenize ascii (slice ?s 0 19) 0 ! 1 = \<lparr> wstart = 8, wend = 12 \<rparr>" by code_simp
  have sl: "slice ?s 8 12 = runes ''Call''" by code_simp
  have ex: "defaultExceptions (runes ''Call'') = Some True" by code_simp
  have h4: "slice ?s (0 + wstart (tokenize ascii (slice ?s 0 19) 0 ! 1))
               (0 + wend (tokenize ascii (slice ?s 0 19) 0 ! 1)) \<in> dom defaultExceptions"
    unfolding tk using ex by (simp add: sl domI)
  have "slice (decapitalizeMidSentence ?s defaultExceptions protectedHeads ascii) 8 12
      = slice ?s 8 12"
    using exception_token_unchanged [OF h1 h2 refl h4, of protectedHeads, unfolded tk]
    by simp
  then show ?thesis using h1 h2 tk sl ex by simp
qed

text \<open>
  C7. The claim: \<open>SanitizeToPUEBI (SanitizeToPUEBI x) = SanitizeToPUEBI x\<close> for every
  input \<open>x\<close>. It fails at \<open>a.b.c\<close>: the first run returns \<open>A. B.C\<close> (the pattern for
  a full stop consumes the letter \<open>b\<close> with the first stop, so the second stop has no
  rune left before it to match), and a second run returns \<open>A. B. C\<close>.
\<close>

theorem sanitize_not_idempotent_counterexample:
  "SanitizeToPUEBI ascii (SanitizeToPUEBI ascii (runes ''a.b.c''))
     \<noteq> SanitizeToPUEBI ascii (runes ''a.b.c'')"
  by (simp only: sanitize_dots sanitize_dots_again dots_differ not_False_eq_True)

text \<open>
  C7, amended. \<open>SanitizeToPUEBI\<close> is idempotent on the representative inputs of the
  specification (the inputs of its scenarios 1 to 5): a second run returns what the
  first returned.
\<close>

theorem sanitize_idempotent_on_scenarios:
  "SanitizeToPUEBI ascii (SanitizeToPUEBI ascii (runes ''Hai luqmanul hakim,''))
     = SanitizeToPUEBI ascii (runes ''Hai luqmanul hakim,'')
   \<and> SanitizeToPUEBI ascii (SanitizeToPUEBI ascii
         (runes ''...Transfer Real Time dari rekening 1023613267 sejumlah Rp 12.000....''))
     = SanitizeToPUEBI ascii
         (runes ''...Transfer Real Time dari rekening 1023613267 sejumlah Rp 12.000....'')
   \<and> SanitizeToPUEBI ascii (SanitizeToPUEBI ascii (runes ''Hubungi Call Center 1500 035.''))
     = SanitizeToPUEBI ascii (runes ''Hubungi Call Center 1500 035.'')
   \<and> SanitizeToPUEBI ascii (SanitizeToPUEBI ascii (runes ''dirumah saya''))
     = SanitizeToPUEBI ascii (runes ''dirumah saya'')
   \<and> SanitizeToPUEBI ascii (SanitizeToPUEBI ascii (runes ''   ''))
     = SanitizeToPUEBI ascii (runes ''   '')
   \<and> SanitizeToPUEBI ascii (SanitizeToPUEBI ascii []) = SanitizeToPUEBI ascii []"
  by (simp only: sanitize_greeting sanitize_greeting_again sanitize_transfer
        sanitize_transfer_again sanitize_call_center sanitize_dirumah sanitize_dirumah_again
        sanitize_blank simp_thms)



text \<open>
  C9. The claim: \<open>IsSentenceCapitalized\<close> returns true for an empty or whitespace-only
  text, and for every other text it returns true iff the first letter of the text is
  uppercase (\<open>specIsSentenceCapitalized\<close>). The text \<open>123\<close> is not whitespace-only and
  has no letter, uppercase or not; the function returns true for it.
\<close>

theorem IsSentenceCapitalized_no_letter_counterexample:
  "\<not> list_all (IsSpace ascii) (runes ''123'')
   \<and> find (IsLetter ascii) (runes ''123'') = None
   \<and> IsSentenceCapitalized ascii (runes ''123'')
   \<and> \<not> specIsSentenceCapitalized ascii (runes ''123'')"
  by code_simp

text \<open>
  C9, amended. \<open>IsSentenceCapitalized\<close> returns true for every empty or
  whitespace-only text and for every text without a letter; for a text with a letter it
  returns true iff the first letter of the text is uppercase. (No rune is both a space
  and a letter in the Unicode tables, which the theorem assumes of \<open>U\<close>.)
\<close>

theorem IsSentenceCapitalized_cases:
  assumes "\<forall>r. IsSpace U r \<longrightarrow> \<not> IsLetter U r"
  shows "((\<forall>r \<in> set s. IsSpace U r) \<longrightarrow> IsSentenceCapitalized U s)
       \<and> ((\<forall>r \<in> set s. \<not> IsLetter U r) \<longrightarrow> IsSentenceCapitalized U s)
       \<and> (\<forall>i < length s. IsLetter U (s ! i) \<and> (\<forall>j < i. \<not> IsLetter U (s ! j))
              \<longrightarrow> IsSentenceCapitalized U s = IsUpper U (s ! i))"
proof -
  note eq = IsSentenceCapitalized_find [OF assms, of s]
  have none: "IsSentenceCapitalized U s" if "\<forall>r \<in> set s. \<not> IsLetter U r"
  proof -
    have "find (IsLetter U) s = None" using that by (simp add: find_None_iff)
    then show ?thesis using eq by simp
  qed
  have sp: "IsSentenceCapitalized U s" if "\<forall>r \<in> set s. IsSpace U r"
    using that assms by (intro none) blast
  have first: "IsSentenceCapitalized U s = IsUpper U (s ! i)"
    if "i < length s" "IsLetter U (s ! i)" "\<forall>j < i. \<not> IsLetter U (s ! j)" for i
  proof -
    have "find (IsLetter U) s = Some (s ! i)"
      using that by (auto simp: find_Some_iff)
    then show ?thesis using eq by simp
  qed
  show ?thesis using none sp first by blast
qed

theorem IsSentenceCapitalized_cases_witness:
  "list_all (\<lambda>r. \<not> (IsSpace ascii r \<and> IsLetter ascii r)) (map int [0..<128])
   \<and> IsSentenceCapitalized ascii (runes ''   '')
   \<and> IsSentenceCapitalized ascii (runes ''12 ?'')
   \<and> IsLetter ascii (runes '' 1. Halo'' ! 4)
   \<and> \<not> list_ex (IsLetter ascii) (take 4 (runes '' 1. Halo''))
   \<and> IsSentenceCapitalized ascii (runes '' 1. Halo'') = IsUpper ascii (runes '' 1. Halo'' ! 4)
   \<and> IsSentenceCapitalized ascii (runes '' 1. Halo'')
   \<and> \<not> IsSentenceCapitalized ascii (runes ''(halo)'')"
proof -
  have tab: "\<forall>r. IsSpace ascii r \<longrightarrow> \<not> IsLetter ascii r"
    by (auto simp: ascii_def asciiSpace_def asciiUpper_def asciiLower_def)
  note th = IsSentenceCapitalized_cases [OF tab]
  have a: "list_all (\<lambda>r. \<not> (IsSpace ascii r \<and> IsLetter ascii r)) (map int [0..<128])"
    by code_simp
  have sp: "\<forall>r \<in> set (runes ''   ''). IsSpace ascii r" by code_simp
  have b: "IsSentenceCapitalized ascii (runes ''   '')" using th [of "runes ''   ''"] sp by blast
  have nl: "\<forall>r \<in> set (runes ''12 ?''). \<not> IsLetter ascii r" by code_simp
  have c: "IsSentenceCapitalized ascii (runes ''12 ?'')" using th [of "runes ''12 ?''"] nl by blast
  let ?s = "runes '' 1. Halo''"
  have l: "(4::nat) < length ?s" by code_simp
  have d: "IsLetter ascii (?s ! 4)" by code_simp
  have e: "\<not> list_ex (IsLetter ascii) (take 4 ?s)" by code_simp
  have e': "\<forall>j < 4. \<not> IsLetter ascii (?s ! j)"
  proof (intro allI impI)
    fix j :: nat assume "j < 4"
    then have "j = 0 \<or> j = 1 \<or> j = 2 \<or> j = 3" by auto
    moreover have "\<not> IsLetter ascii (?s ! 0)" "\<not> IsLetter ascii (?s ! 1)"
      "\<not> IsLetter ascii (?s ! 2)" "\<not> IsLetter ascii (?s ! 3)" by code_simp+
    ultimately show "\<not> IsLetter ascii (?s ! j)" by auto
  qed
  have f: "IsSentenceCapitalized ascii ?s = IsUpper ascii (?s ! 4)"
    using th [of ?s] l d e' by blast
  have g: "IsSentenceCapitalized ascii ?s" by code_simp
  have h: "\<not> IsSentenceCapitalized ascii (runes ''(halo)'')" by code_simp
  show ?thesis using a b c d e f g h by blast
qed

text \<open>
  C10. For every input \<open>s\<close>, \<open>decapitalizeMidSentence\<close> returns as many runes as \<open>s\<close>
  has; each of them is the input rune at its index or the lowercase form
  (\<open>unicode.ToLower\<close>) of that rune; and a rune that is not a letter is copied through
  unchanged at its index.
\<close>

theorem decapitalize_frame:
  "length (decapitalizeMidSentence s E H U) = length s \<and>
   (\<forall>t < length s. decapitalizeMidSentence s E H U ! t = s ! t
        \<or> decapitalizeMidSentence s E H U ! t = ToLower U (s ! t)) \<and>
   (\<forall>t < length s. \<not> IsLetter U (s ! t) \<longrightarrow> decapitalizeMidSentence s E H U ! t = s ! t)"
proof -
  let ?out = "decapitalizeMidSentence s E H U"
  have rel: "list_all2 (\<lambda>x y. y = x \<or> (IsLetter U x \<and> y = ToLower U x)) s ?out"
    using decapLoop_rel [of U 0 s E H] by (simp add: decapitalizeMidSentence_def)
  have len: "length ?out = length s"
    by (simp add: decapitalizeMidSentence_def decapLoop_length)
  have nth: "?out ! t = s ! t \<or> (IsLetter U (s ! t) \<and> ?out ! t = ToLower U (s ! t))"
    if "t < length s" for t
    using list_all2_nthD [OF rel that] .
  show ?thesis using len nth by blast
qed

theorem decapitalize_frame_witness:
  "length (runes ''Ini Rp 5'') = 8
   \<and> length (decapitalizeMidSentence (runes ''Ini Rp 5'') defaultExceptions protectedHeads ascii) = 8
   \<and> decapitalizeMidSentence (runes ''Ini Rp 5'') defaultExceptions protectedHeads ascii ! 4
       = ToLower ascii (runes ''Ini Rp 5'' ! 4)
   \<and> \<not> IsLetter ascii (runes ''Ini Rp 5'' ! 7)
   \<and> decapitalizeMidSentence (runes ''Ini Rp 5'') defaultExceptions protectedHeads ascii ! 7
       = runes ''Ini Rp 5'' ! 7"
proof -
  let ?s = "runes ''Ini Rp 5''"
  let ?out = "decapitalizeMidSentence ?s defaultExceptions protectedHeads ascii"
  note frame = decapitalize_frame [of ?s defaultExceptions protectedHeads ascii]
  have l: "length ?s = 8" by code_simp
  have n: "\<not> IsLetter ascii (?s ! 7)" by code_simp
  have c1: "length ?out = 8" using frame l by simp
  have "(7::nat) < length ?s" using l by simp
  then have c3: "?out ! 7 = ?s ! 7" using frame n by blast
  have c2: "?out ! 4 = ToLower ascii (?s ! 4)" by code_simp
  show ?thesis using l n c1 c2 c3 by simp
qed

end
